theory Spec2Isabelle
  imports Complex_Main "HOL-Library.AList" "HOL-Library.Multiset"
begin

section \<open>The scoring pipeline of tonic_validate (validate_scorer.py)\<close>

text \<open>
  The development embeds \<^verbatim>\<open>ValidateScorer\<close> of
  \<^verbatim>\<open>src/tonic_validate/validate_scorer.py\<close>: the per-response scoring loop
  \<^verbatim>\<open>_score_item_rundata\<close>, the scoring stage \<^verbatim>\<open>score_run\<close> with its aggregation,
  and the generation stage of \<^verbatim>\<open>score\<close>.

  Conventions of the embedding.
  \<^item> Python's \<^verbatim>\<open>float\<close> is a type variable \<open>'f\<close>, and its arithmetic is a parameter
    \<open>fl\<close> of the functions that compute with floats: the zero \<^verbatim>\<open>float()\<close>, the sum of two
    floats and the quotient of a float by an int. Nothing is assumed of them, so what is
    proved of the program holds for the rounding, the infinities and the \<^verbatim>\<open>nan\<close> of any float
    arithmetic. \<open>binary64\<close> below is IEEE 754 double precision, the arithmetic of
    CPython. Python's \<^verbatim>\<open>int\<close> is \<open>int\<close>.
  \<^item> A \<^verbatim>\<open>dict\<close> is an association list in insertion order; \<^verbatim>\<open>d[k] = v\<close> is
    \<open>AList.update k v d\<close>, which overwrites in place or appends, as a Python dict does.
  \<^item> An exception is a value of type \<open>exn\<close>; a call that may raise returns \<open>exn + 'a\<close>
    with \<open>Inl\<close> for the exception.
  \<^item> Calls into collaborators (metrics, the judge service, the user callback) act on an
    explicit state. A function that the thread pool runs is a program \<open>prog\<close>: a sequence of
    atomic actions on the shared state, so that the actions of tasks that run at the same
    time can interleave.
  \<^item> A local variable whose name is also a field name carries a prime (\<open>scores'\<close>).
\<close>

subsection \<open>Exceptions\<close>

datatype exn =
    ValueError string
  | ZeroDivisionError
  | Exception string

subsection \<open>Float arithmetic\<close>

text \<open>
  What the program uses of floats: \<^verbatim>\<open>float()\<close> (the default of
  \<^verbatim>\<open>defaultdict(float)\<close>), \<^verbatim>\<open>total += score\<close> and \<^verbatim>\<open>total / count\<close> with an int count
  that is not zero.
\<close>

record 'f float_ops =
  float_zero :: 'f
  float_add :: "'f \<Rightarrow> 'f \<Rightarrow> 'f"
  float_div :: "'f \<Rightarrow> int \<Rightarrow> 'f"

subsection \<open>Data model\<close>

text \<open>
  Modelled from the spec: the classes \<^verbatim>\<open>BenchmarkItem\<close>, \<^verbatim>\<open>Benchmark\<close>, \<^verbatim>\<open>LLMResponse\<close>,
  \<^verbatim>\<open>RunData\<close> and \<^verbatim>\<open>Run\<close>, which are declared in modules (\<^verbatim>\<open>tonic_validate.classes\<close>) that
  are not among the source files. Their fields are those of the specification's data
  model, which are the ones the source reads and the positional constructor arguments it
  passes. \<^verbatim>\<open>RunData\<close> is built as
  \<^verbatim>\<open>RunData(scores, item["question"], item["answer"], llm_answer, llm_context_list)\<close>;
  its last four fields are named \<open>reference_question\<close>, \<open>reference_answer\<close>,
  \<open>answer_given\<close> and \<open>context_given\<close> here, since a field name is a constant of the
  theory and \<open>question\<close>, \<open>llm_answer\<close>, \<open>llm_context_list\<close> already belong to the
  other records. \<^verbatim>\<open>Run\<close> is built as \<^verbatim>\<open>Run(overall_scores, run_data, None)\<close>.
\<close>

record BenchmarkItem =
  question :: string
  answer :: string
  reference_context :: "string list option"

record Benchmark =
  items :: "BenchmarkItem list"
  benchmark_name :: string

datatype benchmark_arg =
    Of_Benchmark Benchmark
  | Of_List "BenchmarkItem list"

record LLMResponse =
  llm_answer :: string
  llm_context_list :: "string list"
  benchmark_item :: BenchmarkItem

record 'f RunData =
  scores :: "(string \<times> 'f) list"
  reference_question :: string
  reference_answer :: string
  answer_given :: string
  context_given :: "string list"

record 'f Run =
  overall_scores :: "(string \<times> 'f) list"
  run_data :: "'f RunData list"
  run_id :: "string option"

subsection \<open>The judge service and the metrics\<close>

text \<open>
  Modelled from the spec: the class \<^verbatim>\<open>OpenAIService\<close>
  (\<^verbatim>\<open>tonic_validate.services.openai_service\<close>, not among the source files), the judge service
  that is constructed from a model identifier and keeps per-instance cached state. It is
  an object with identity and state of its own (the source comments
  ``We cache per response''). An instance has the model identifier it was constructed with
  and a cache of judge answers. Instances live in a store, a list indexed by address;
  constructing one appends to the store.
\<close>

record OpenAIService =
  model :: string
  cache :: "(string \<times> string) list"

text \<open>
  Modelled from the spec: the class \<^verbatim>\<open>Metric\<close> (\<^verbatim>\<open>tonic_validate.metrics.metric\<close>, not among
  the source files), by its contract. A metric has a \<open>name\<close> and a method
  \<^verbatim>\<open>score(response, openai_service)\<close>, here \<open>metric_score\<close>: it reads and may change the state
  of the service it is handed and either raises or returns a float. What a call returns is
  a function of the response and of the state of that service.
\<close>

record 'f Metric =
  name :: string
  metric_score :: "LLMResponse \<Rightarrow> OpenAIService \<Rightarrow> (exn + 'f) \<times> OpenAIService"

record 'f ValidateScorer =
  metrics :: "'f Metric list"
  model_evaluator :: string

text \<open>
  The world of the scoring stage: the store of judge-service instances, and the trace of
  the calls that cross to the collaborators, in the order they are made. \<open>Constructed a m\<close>
  is the call \<^verbatim>\<open>OpenAIService(m)\<close> that returned the instance at address \<open>a\<close>;
  \<open>Scored n r a\<close> is the call \<^verbatim>\<open>metric.score(r, s)\<close> of the metric named \<open>n\<close> with the
  instance at address \<open>a\<close>.
\<close>

datatype event =
    Constructed nat string
  | Scored string LLMResponse nat

record world =
  heap :: "OpenAIService list"
  trace :: "event list"

text \<open>
  The callback is a black box with a state \<open>'c\<close> of its own: called with a question, it
  raises or returns the answer and the retrieved context. The world of the generation
  stage is that state and the list of the calls made to the callback, each with its
  question and with what it returned or raised.
\<close>

type_synonym 'c callback = "string \<Rightarrow> 'c \<Rightarrow> (exn + string \<times> string list) \<times> 'c"

record 'c callback_world =
  callback_state :: 'c
  callback_calls :: "(string \<times> (exn + string \<times> string list)) list"

subsection \<open>Dictionaries with a default\<close>

text \<open>Reading \<^verbatim>\<open>d[k]\<close> from a \<^verbatim>\<open>defaultdict\<close>: the stored value, or the default.\<close>

definition getd :: "'v \<Rightarrow> ('k \<times> 'v) list \<Rightarrow> 'k \<Rightarrow> 'v" where
  "getd dflt d k = (case map_of d k of None \<Rightarrow> dflt | Some v \<Rightarrow> v)"

subsection \<open>Programs\<close>

text \<open>
  A program returns, or performs one atomic action on the state and goes on as the
  program that the action yields. \<open>run_prog\<close> performs a program's actions one after the other
  with nothing in between; its equation is \<open>run_Act\<close> below:
  \<open>run_prog (Act f) w = (case f w of (p, w') \<Rightarrow> run_prog p w')\<close>.
\<close>

datatype ('w, 'r) prog =
    Return 'r
  | Act "'w \<Rightarrow> ('w, 'r) prog \<times> 'w"

primrec run_prog :: "('w, 'r) prog \<Rightarrow> 'w \<Rightarrow> 'r \<times> 'w" where
  "run_prog (Return r) = (\<lambda>w. (r, w))"
| "run_prog (Act f) = (\<lambda>w. case map_prod run_prog id (f w) of (g, w') \<Rightarrow> g w')"

subsection \<open>The thread pool\<close>

text \<open>
  The pool is \<^verbatim>\<open>concurrent.futures.ThreadPoolExecutor\<close> of the Python standard library.
  \<^verbatim>\<open>ThreadPoolExecutor(max_workers=n)\<close> raises \<^verbatim>\<open>ValueError\<close> when \<open>n \<le> 0\<close>.
\<close>

definition ThreadPoolExecutor :: "int \<Rightarrow> exn + int" where
  "ThreadPoolExecutor max_workers =
     (if max_workers \<le> 0 then Inl (ValueError ''max_workers must be greater than 0'')
      else Inr max_workers)"

text \<open>
  \<^verbatim>\<open>list(executor.map(fn, args))\<close> submits one future per argument, in order, and then reads
  the futures in submission order. A future is queued, or a worker is running its task
  (what is left of the task is a program), or it has finished with an outcome.
\<close>

datatype ('w, 'r) future =
    Queued
  | Running "('w, 'r) prog"
  | Finished 'r

definition is_queued :: "('w, 'r) future \<Rightarrow> bool" where
  "is_queued fut = (case fut of Queued \<Rightarrow> True | Running p \<Rightarrow> False | Finished r \<Rightarrow> False)"

definition is_running :: "('w, 'r) future \<Rightarrow> bool" where
  "is_running fut = (case fut of Queued \<Rightarrow> False | Running p \<Rightarrow> True | Finished r \<Rightarrow> False)"

text \<open>
  One step of the task of future \<open>i\<close>: a worker takes it from the queue, or performs the
  next atomic action of its program, or stores the outcome the program returned.
\<close>

definition task_step ::
  "('a \<Rightarrow> ('w, 'r) prog) \<Rightarrow> 'a list \<Rightarrow> nat \<Rightarrow> ('w, 'r) future list \<times> 'w
     \<Rightarrow> ('w, 'r) future list \<times> 'w"
where
  "task_step fn args i st =
     (case st of (futures, w) \<Rightarrow>
        (case futures ! i of
           Queued \<Rightarrow> (futures[i := Running (fn (args ! i))], w)
         | Running (Return r) \<Rightarrow> (futures[i := Finished r], w)
         | Running (Act f) \<Rightarrow> (case f w of (p, w') \<Rightarrow> (futures[i := Running p], w'))
         | Finished r \<Rightarrow> (futures, w)))"

text \<open>
  The workers take the queued tasks first to last, and at most \<open>max_workers\<close> tasks are
  running at a time.
\<close>

definition may_start :: "int \<Rightarrow> ('w, 'r) future list \<Rightarrow> nat \<Rightarrow> bool" where
  "may_start max_workers futures i =
     (list_all (\<lambda>fut. \<not> is_queued fut) (take i futures) \<and>
      int (length (filter is_running futures)) < max_workers)"

text \<open>
  The threads run in an order the program does not control. The parameter \<open>order\<close> of the
  pool is that order: a list of indexes, each naming the future whose task takes the next
  step (an index that is out of range, or whose task may not start yet or has finished,
  is skipped). Every list of indexes is an order, so a statement for all \<open>order\<close> covers
  every interleaving of the actions of the tasks.
\<close>

definition worker_step ::
  "int \<Rightarrow> ('a \<Rightarrow> ('w, 'r) prog) \<Rightarrow> 'a list \<Rightarrow> nat \<Rightarrow> ('w, 'r) future list \<times> 'w
     \<Rightarrow> ('w, 'r) future list \<times> 'w"
where
  "worker_step max_workers fn args i st =
     (if i < length (fst st) \<and>
         (if is_queued (fst st ! i) then may_start max_workers (fst st) i else True)
      then task_step fn args i st else st)"

text \<open>
  \<^verbatim>\<open>future.result()\<close> blocks until the task of the future has finished: what is left of the
  task runs to its end.
\<close>

definition await ::
  "('a \<Rightarrow> ('w, 'r) prog) \<Rightarrow> 'a list \<Rightarrow> nat \<Rightarrow> ('w, 'r) future list \<times> 'w
     \<Rightarrow> 'r \<times> ('w, 'r) future list \<times> 'w"
where
  "await fn args i st =
     (case st of (futures, w) \<Rightarrow>
        (case futures ! i of
           Queued \<Rightarrow>
             (case run_prog (fn (args ! i)) w of (r, w') \<Rightarrow> (r, futures[i := Finished r], w'))
         | Running p \<Rightarrow>
             (case run_prog p w of (r, w') \<Rightarrow> (r, futures[i := Finished r], w'))
         | Finished r \<Rightarrow> (r, futures, w)))"

text \<open>
  When the result iterator raises, the futures that are still queued are cancelled and
  never run, and the \<^verbatim>\<open>with\<close> block waits for the tasks that are running
  (\<^verbatim>\<open>shutdown(wait=True)\<close>) before it lets the exception through.
\<close>

definition shutdown ::
  "('a \<Rightarrow> ('w, 'r) prog) \<Rightarrow> 'a list \<Rightarrow> ('w, 'r) future list \<times> 'w \<Rightarrow> ('w, 'r) future list \<times> 'w"
where
  "shutdown fn args st =
     fold (\<lambda>i st. if is_running (fst st ! i) then snd (await fn args i st) else st)
       [0..<length (fst st)] st"

text \<open>
  The result iterator takes the futures first to last and waits for each. An outcome that
  is an exception is raised; otherwise the value is appended to the list.
\<close>

fun result_iterator ::
  "('a \<Rightarrow> ('w, exn + 'b) prog) \<Rightarrow> 'a list \<Rightarrow> nat list \<Rightarrow> ('w, exn + 'b) future list \<times> 'w
     \<Rightarrow> (exn + 'b list) \<times> ('w, exn + 'b) future list \<times> 'w"
where
  "result_iterator fn args [] st = (Inr [], st)"
| "result_iterator fn args (i # rest) st =
     (case await fn args i st of
        (Inl e, st') \<Rightarrow> (Inl e, shutdown fn args st')
      | (Inr y, st') \<Rightarrow>
          (case result_iterator fn args rest st' of
             (Inl e, st'') \<Rightarrow> (Inl e, st'')
           | (Inr ys, st'') \<Rightarrow> (Inr (y # ys), st'')))"

text \<open>
  The pool: all futures queued, then the steps of \<open>order\<close>, then the result iterator.
  \<open>pool_run\<close> returns the futures as they are at the end beside the result and the state.
\<close>

definition pool_run ::
  "int \<Rightarrow> nat list \<Rightarrow> ('a \<Rightarrow> ('w, exn + 'b) prog) \<Rightarrow> 'a list \<Rightarrow> 'w
     \<Rightarrow> (exn + 'b list) \<times> ('w, exn + 'b) future list \<times> 'w"
where
  "pool_run max_workers order fn args w =
     result_iterator fn args [0..<length args]
       (fold (worker_step max_workers fn args) order (replicate (length args) Queued, w))"

definition executor_map ::
  "int \<Rightarrow> nat list \<Rightarrow> ('a \<Rightarrow> ('w, exn + 'b) prog) \<Rightarrow> 'a list \<Rightarrow> 'w \<Rightarrow> (exn + 'b list) \<times> 'w"
where
  "executor_map max_workers order fn args w =
     (case pool_run max_workers order fn args w of (res, futures, w') \<Rightarrow> (res, w'))"

subsection \<open>Scoring one response: \<^verbatim>\<open>_score_item_rundata\<close>\<close>

definition new_OpenAIService :: "string \<Rightarrow> world \<Rightarrow> nat \<times> world" where
  "new_OpenAIService model_name w =
     (length (heap w),
      w\<lparr>heap := heap w @ [\<lparr>model = model_name, cache = []\<rparr>],
        trace := trace w @ [Constructed (length (heap w)) model_name]\<rparr>)"

definition call_score :: "'f Metric \<Rightarrow> LLMResponse \<Rightarrow> nat \<Rightarrow> world \<Rightarrow> (exn + 'f) \<times> world" where
  "call_score metric response a w =
     (case metric_score metric response (heap w ! a) of
        (r, s') \<Rightarrow>
          (r, w\<lparr>heap := (heap w)[a := s'],
                trace := trace w @ [Scored (name metric) response a]\<rparr>))"

text \<open>
  The loop \<^verbatim>\<open>for metric in self.metrics\<close> (lines 35 to 37) and the \<^verbatim>\<open>return RunData(...)\<close>
  after it (lines 39 to 46). Each call of a metric is one atomic action.
\<close>

fun score_metrics ::
  "'f Metric list \<Rightarrow> LLMResponse \<Rightarrow> nat \<Rightarrow> (string \<times> 'f) list \<Rightarrow> (world, exn + 'f RunData) prog"
where
  "score_metrics [] response openai_service scores' =
     Return (Inr \<lparr>scores = scores',
                  reference_question = question (benchmark_item response),
                  reference_answer = answer (benchmark_item response),
                  answer_given = llm_answer response,
                  context_given = llm_context_list response\<rparr>)"
| "score_metrics (metric # rest) response openai_service scores' =
     Act (\<lambda>w. case call_score metric response openai_service w of
                 (Inl e, w') \<Rightarrow> (Return (Inl e), w')
               | (Inr score, w') \<Rightarrow>
                   (score_metrics rest response openai_service
                      (AList.update (name metric) score scores'), w'))"

text \<open>
  \<^verbatim>\<open>_score_item_rundata(response)\<close>: the empty dict, a new service, then the loop.
\<close>

definition score_item_rundata ::
  "'f ValidateScorer \<Rightarrow> LLMResponse \<Rightarrow> (world, exn + 'f RunData) prog"
where
  "score_item_rundata self response =
     Act (\<lambda>w. case new_OpenAIService (model_evaluator self) w of
                 (openai_service, w1) \<Rightarrow>
                   (score_metrics (metrics self) response openai_service [], w1))"

subsection \<open>Aggregation (lines 68 to 79 of \<^verbatim>\<open>score_run\<close>)\<close>

text \<open>The inner loop \<^verbatim>\<open>for metric_name, score in item.scores.items()\<close>.\<close>

fun add_scores ::
  "'f float_ops \<Rightarrow> (string \<times> 'f) list \<Rightarrow> (string \<times> 'f) list \<times> (string \<times> int) list
     \<Rightarrow> (string \<times> 'f) list \<times> (string \<times> int) list"
where
  "add_scores fl [] (total_scores, num_scores) = (total_scores, num_scores)"
| "add_scores fl ((metric_name, score) # rest) (total_scores, num_scores) =
     add_scores fl rest
       (AList.update metric_name
          (float_add fl (getd (float_zero fl) total_scores metric_name) score) total_scores,
        AList.update metric_name (getd 0 num_scores metric_name + 1) num_scores)"

text \<open>The outer loop \<^verbatim>\<open>for item in run_data\<close>.\<close>

fun sum_scores ::
  "'f float_ops \<Rightarrow> 'f RunData list \<Rightarrow> (string \<times> 'f) list \<times> (string \<times> int) list
     \<Rightarrow> (string \<times> 'f) list \<times> (string \<times> int) list"
where
  "sum_scores fl [] acc = acc"
| "sum_scores fl (item # rest) acc = sum_scores fl rest (add_scores fl (scores item) acc)"

text \<open>
  The dict comprehension \<^verbatim>\<open>{metric: total / num_scores[metric] for ...}\<close>. Python raises
  \<^verbatim>\<open>ZeroDivisionError\<close> on a zero divisor.
\<close>

fun mean_scores ::
  "'f float_ops \<Rightarrow> (string \<times> 'f) list \<Rightarrow> (string \<times> int) list \<Rightarrow> (string \<times> 'f) list
     \<Rightarrow> exn + (string \<times> 'f) list"
where
  "mean_scores fl [] num_scores overall = Inr overall"
| "mean_scores fl ((metric, total') # rest) num_scores overall =
     (if getd 0 num_scores metric = 0 then Inl ZeroDivisionError
      else mean_scores fl rest num_scores
             (AList.update metric (float_div fl total' (getd 0 num_scores metric)) overall))"

definition aggregate :: "'f float_ops \<Rightarrow> 'f RunData list \<Rightarrow> exn + (string \<times> 'f) list" where
  "aggregate fl run_data' =
     (case sum_scores fl run_data' ([], []) of
        (total_scores, num_scores) \<Rightarrow> mean_scores fl total_scores num_scores [])"

subsection \<open>The scoring stage: \<^verbatim>\<open>score_run\<close>\<close>

text \<open>
  \<^verbatim>\<open>score_run(responses, parallelism)\<close>. Beside the arguments of the source the function
  takes the float arithmetic, the order in which the threads of the pool run and the
  world, and returns the world with the result.
\<close>

definition score_run ::
  "'f float_ops \<Rightarrow> 'f ValidateScorer \<Rightarrow> LLMResponse list \<Rightarrow> int \<Rightarrow> nat list \<Rightarrow> world
     \<Rightarrow> (exn + 'f Run) \<times> world"
where
  "score_run fl self responses parallelism order w =
     (case ThreadPoolExecutor parallelism of
        Inl e \<Rightarrow> (Inl e, w)
      | Inr executor \<Rightarrow>
          (case executor_map executor order (score_item_rundata self) responses w of
             (Inl e, w') \<Rightarrow> (Inl e, w')
           | (Inr run_data', w') \<Rightarrow>
               (case aggregate fl run_data' of
                  Inl e \<Rightarrow> (Inl e, w')
                | Inr overall_scores' \<Rightarrow>
                    (Inr \<lparr>overall_scores = overall_scores', run_data = run_data',
                          run_id = None\<rparr>, w'))))"

subsection \<open>The generation stage: \<^verbatim>\<open>score\<close>\<close>

text \<open>
  The local function \<^verbatim>\<open>create_response\<close>: one call of the callback, which is one atomic
  action and is entered in the list of calls, then the LLMResponse.
\<close>

definition create_response ::
  "'c callback \<Rightarrow> BenchmarkItem \<Rightarrow> ('c callback_world, exn + LLMResponse) prog"
where
  "create_response callback item =
     Act (\<lambda>c. case callback (question item) (callback_state c) of
                 (res, s') \<Rightarrow>
                   (Return (case res of
                              Inl e \<Rightarrow> Inl e
                            | Inr (llm_answer', llm_context_list') \<Rightarrow>
                                Inr \<lparr>llm_answer = llm_answer',
                                     llm_context_list = llm_context_list',
                                     benchmark_item = item\<rparr>),
                    c\<lparr>callback_state := s',
                      callback_calls := callback_calls c @ [(question item, res)]\<rparr>))"

definition benchmark_items :: "benchmark_arg \<Rightarrow> BenchmarkItem list" where
  "benchmark_items benchmark =
     (case benchmark of Of_Benchmark b \<Rightarrow> items b | Of_List xs \<Rightarrow> xs)"

text \<open>Lines 128 to 137 of \<^verbatim>\<open>score\<close>: the list \<^verbatim>\<open>responses\<close>.\<close>

definition score_responses ::
  "benchmark_arg \<Rightarrow> 'c callback \<Rightarrow> int \<Rightarrow> nat list \<Rightarrow> 'c callback_world
     \<Rightarrow> (exn + LLMResponse list) \<times> 'c callback_world"
where
  "score_responses benchmark callback callback_parallelism order c =
     (case ThreadPoolExecutor callback_parallelism of
        Inl e \<Rightarrow> (Inl e, c)
      | Inr executor \<Rightarrow>
          executor_map executor order (create_response callback) (benchmark_items benchmark) c)"

text \<open>
  \<^verbatim>\<open>score(benchmark, callback, callback_parallelism, scoring_parallelism)\<close>, with the float
  arithmetic, the thread orders of the two pools, the world of the callback and the world
  of the scoring stage.
\<close>

definition score ::
  "'f float_ops \<Rightarrow> 'f ValidateScorer \<Rightarrow> benchmark_arg \<Rightarrow> 'c callback \<Rightarrow> int \<Rightarrow> int
     \<Rightarrow> nat list \<Rightarrow> nat list \<Rightarrow> 'c callback_world \<Rightarrow> world
     \<Rightarrow> (exn + 'f Run) \<times> 'c callback_world \<times> world"
where
  "score fl self benchmark callback callback_parallelism scoring_parallelism
         callback_order scoring_order c w =
     (case score_responses benchmark callback callback_parallelism callback_order c of
        (Inl e, c') \<Rightarrow> (Inl e, c', w)
      | (Inr responses, c') \<Rightarrow>
          (case score_run fl self responses scoring_parallelism scoring_order w of
             (r, w') \<Rightarrow> (r, c', w')))"

section \<open>Notions used to state the properties\<close>

definition holds_at :: "nat \<Rightarrow> nat \<Rightarrow> 'r \<Rightarrow> ('w, 'r) future list \<times> 'w \<Rightarrow> bool" where
  "holds_at n i r st = (length (fst st) = n \<and> fst st ! i = Finished r)"

fun gather :: "(exn + 'b) list \<Rightarrow> exn + 'b list" where
  "gather [] = Inr []"
| "gather (Inl e # rs) = Inl e"
| "gather (Inr y # rs) = (case gather rs of Inl e \<Rightarrow> Inl e | Inr ys \<Rightarrow> Inr (y # ys))"

fun metric_calls ::
  "'f Metric list \<Rightarrow> LLMResponse \<Rightarrow> OpenAIService \<Rightarrow> (string \<times> (exn + 'f)) list"
where
  "metric_calls [] response s = []"
| "metric_calls (metric # rest) response s =
     (case metric_score metric response s of
        (Inl e, s') \<Rightarrow> [(name metric, Inl e)]
      | (Inr v, s') \<Rightarrow> (name metric, Inr v) # metric_calls rest response s')"

fun scores_of_calls ::
  "(string \<times> (exn + 'f)) list \<Rightarrow> (string \<times> 'f) list \<Rightarrow> exn + (string \<times> 'f) list"
where
  "scores_of_calls [] d = Inr d"
| "scores_of_calls ((n, Inl e) # calls) d = Inl e"
| "scores_of_calls ((n, Inr v) # calls) d = scores_of_calls calls (AList.update n v d)"

definition rundata_of :: "LLMResponse \<Rightarrow> (string \<times> 'f) list \<Rightarrow> 'f RunData" where
  "rundata_of response d =
     \<lparr>scores = d,
      reference_question = question (benchmark_item response),
      reference_answer = answer (benchmark_item response),
      answer_given = llm_answer response,
      context_given = llm_context_list response\<rparr>"

definition outcome_from ::
  "'f Metric list \<Rightarrow> LLMResponse \<Rightarrow> OpenAIService \<Rightarrow> (string \<times> 'f) list \<Rightarrow> exn + 'f RunData"
where
  "outcome_from ms response s d =
     (case scores_of_calls (metric_calls ms response s) d of
        Inl e \<Rightarrow> Inl e
      | Inr d' \<Rightarrow> Inr (rundata_of response d'))"

definition fresh_service :: "'f ValidateScorer \<Rightarrow> OpenAIService" where
  "fresh_service self = \<lparr>model = model_evaluator self, cache = []\<rparr>"

definition item_calls :: "'f ValidateScorer \<Rightarrow> LLMResponse \<Rightarrow> (string \<times> (exn + 'f)) list" where
  "item_calls self response = metric_calls (metrics self) response (fresh_service self)"

definition item_outcome :: "'f ValidateScorer \<Rightarrow> LLMResponse \<Rightarrow> exn + 'f RunData" where
  "item_outcome self response = outcome_from (metrics self) response (fresh_service self) []"

definition item_events :: "'f ValidateScorer \<Rightarrow> LLMResponse \<Rightarrow> nat \<Rightarrow> event list" where
  "item_events self response a =
     Constructed a (model_evaluator self) #
     map (\<lambda>c. Scored (fst c) response a) (item_calls self response)"

definition event_address :: "event \<Rightarrow> nat" where
  "event_address ev = (case ev of Constructed a m \<Rightarrow> a | Scored n r a \<Rightarrow> a)"

definition events_at :: "nat \<Rightarrow> event list \<Rightarrow> event list" where
  "events_at a tr = filter (\<lambda>ev. event_address ev = a) tr"

definition new_trace :: "world \<Rightarrow> world \<Rightarrow> event list" where
  "new_trace w0 w = drop (length (trace w0)) (trace w)"

definition slot_ok ::
  "'f ValidateScorer \<Rightarrow> world \<Rightarrow> world \<Rightarrow> LLMResponse \<Rightarrow> (world, exn + 'f RunData) future
     \<Rightarrow> nat option \<Rightarrow> bool"
where
  "slot_ok self w0 w r fut g =
     (case g of
        None \<Rightarrow>
          (case fut of
             Queued \<Rightarrow> True
           | Running p \<Rightarrow> p = score_item_rundata self r
           | Finished x \<Rightarrow> False)
      | Some a \<Rightarrow>
          (case fut of
             Queued \<Rightarrow> False
           | Running p \<Rightarrow>
               (\<exists>ms d. p = score_metrics ms r a d \<and>
                   outcome_from ms r (heap w ! a) d = item_outcome self r \<and>
                   events_at a (new_trace w0 w) @
                     map (\<lambda>c. Scored (fst c) r a) (metric_calls ms r (heap w ! a)) =
                   item_events self r a) \<or>
               (p = Return (item_outcome self r) \<and>
                events_at a (new_trace w0 w) = item_events self r a)
           | Finished x \<Rightarrow>
               x = item_outcome self r \<and> events_at a (new_trace w0 w) = item_events self r a))"

definition world_ext :: "world \<Rightarrow> world \<Rightarrow> bool" where
  "world_ext w0 w =
     (take (length (trace w0)) (trace w) = trace w0 \<and>
      length (heap w0) \<le> length (heap w) \<and>
      (\<forall>b < length (heap w0). heap w ! b = heap w0 ! b) \<and>
      (\<forall>ev \<in> set (new_trace w0 w).
         length (heap w0) \<le> event_address ev \<and> event_address ev < length (heap w)))"

definition owners_ok :: "nat \<Rightarrow> world \<Rightarrow> world \<Rightarrow> nat option list \<Rightarrow> bool" where
  "owners_ok n w0 w G =
     (length G = n \<and>
      (\<forall>i < n. \<forall>a. G ! i = Some a \<longrightarrow> length (heap w0) \<le> a \<and> a < length (heap w)) \<and>
      (\<forall>i < n. \<forall>j < n. \<forall>a. G ! i = Some a \<and> G ! j = Some a \<longrightarrow> i = j) \<and>
      (\<forall>a. length (heap w0) \<le> a \<and> a < length (heap w) \<longrightarrow> (\<exists>i < n. G ! i = Some a)))"

definition slots_ok ::
  "'f ValidateScorer \<Rightarrow> LLMResponse list \<Rightarrow> world \<Rightarrow> world
     \<Rightarrow> (world, exn + 'f RunData) future list \<Rightarrow> nat option list \<Rightarrow> bool"
where
  "slots_ok self rs w0 w futures G =
     (length futures = length rs \<and>
      (\<forall>i < length rs. slot_ok self w0 w (rs ! i) (futures ! i) (G ! i)))"

definition score_inv ::
  "'f ValidateScorer \<Rightarrow> LLMResponse list \<Rightarrow> world \<Rightarrow> nat option list
     \<Rightarrow> (world, exn + 'f RunData) future list \<times> world \<Rightarrow> bool"
where
  "score_inv self rs w0 G st =
     (world_ext w0 (snd st) \<and> owners_ok (length rs) w0 (snd st) G \<and>
      slots_ok self rs w0 (snd st) (fst st) G)"

subsection \<open>Services and the responses they serve\<close>

text \<open>
  \<open>serves self responses w w' owner\<close>: between the worlds \<open>w\<close> and \<open>w'\<close> the services
  constructed are those that \<open>owner\<close> gives to responses, one service for a response
  (\<open>owner ! i\<close> is the address of the service of response \<open>i\<close>, if one was constructed for it)
  and no service for two responses, and the events at the address of a service are the
  events of scoring its response: the construction with the scorer's \<^verbatim>\<open>model_evaluator\<close>,
  then the metric calls for that response. Every new event is at the address of a new
  service, the events before are kept, and the services that existed are not touched.
\<close>

definition serves ::
  "'f ValidateScorer \<Rightarrow> LLMResponse list \<Rightarrow> world \<Rightarrow> world \<Rightarrow> nat option list \<Rightarrow> bool"
where
  "serves self responses w w' owner =
     (length owner = length responses \<and>
      (\<forall>i < length responses. \<forall>a. owner ! i = Some a \<longrightarrow>
         length (heap w) \<le> a \<and> a < length (heap w') \<and>
         events_at a (new_trace w w') = item_events self (responses ! i) a \<and>
         (\<forall>j < length responses. owner ! j = Some a \<longrightarrow> j = i)) \<and>
      (\<forall>a. length (heap w) \<le> a \<and> a < length (heap w') \<longrightarrow>
         (\<exists>i < length responses. owner ! i = Some a)) \<and>
      (\<forall>ev \<in> set (new_trace w w').
         length (heap w) \<le> event_address ev \<and> event_address ev < length (heap w')) \<and>
      trace w' = trace w @ new_trace w w' \<and>
      (\<forall>b < length (heap w). heap w' ! b = heap w ! b))"

subsection \<open>The calls of the callback\<close>

text \<open>
  \<open>response_of item res\<close> is what \<^verbatim>\<open>create_response\<close> makes of the outcome \<open>res\<close> of the
  callback. \<open>new_calls c0 c\<close> are the calls entered in the list since \<open>c0\<close>. In the invariant
  of the generation stage \<open>R ! i\<close> is the outcome of the call made for item \<open>i\<close>, if it
  has been made, and \<open>logged items R\<close> are the entries of these calls.
\<close>

definition response_of :: "BenchmarkItem \<Rightarrow> exn + string \<times> string list \<Rightarrow> exn + LLMResponse" where
  "response_of item res =
     (case res of
        Inl e \<Rightarrow> Inl e
      | Inr (llm_answer', llm_context_list') \<Rightarrow>
          Inr \<lparr>llm_answer = llm_answer', llm_context_list = llm_context_list',
               benchmark_item = item\<rparr>)"

definition new_calls ::
  "'c callback_world \<Rightarrow> 'c callback_world \<Rightarrow> (string \<times> (exn + string \<times> string list)) list"
where
  "new_calls c0 c = drop (length (callback_calls c0)) (callback_calls c)"

fun logged ::
  "BenchmarkItem list \<Rightarrow> (exn + string \<times> string list) option list
     \<Rightarrow> (string \<times> (exn + string \<times> string list)) list"
where
  "logged (item # items') (Some res # R) = (question item, res) # logged items' R"
| "logged (item # items') (None # R) = logged items' R"
| "logged [] R = []"
| "logged items' [] = []"

definition call_slot_ok ::
  "'c callback \<Rightarrow> BenchmarkItem \<Rightarrow> ('c callback_world, exn + LLMResponse) future
     \<Rightarrow> (exn + string \<times> string list) option \<Rightarrow> bool"
where
  "call_slot_ok callback item fut g =
     (case g of
        None \<Rightarrow> fut = Queued \<or> fut = Running (create_response callback item)
      | Some res \<Rightarrow>
          (fut = Running (Return (response_of item res)) \<or> fut = Finished (response_of item res)) \<and>
          (\<exists>s. fst (callback (question item) s) = res))"

definition call_inv ::
  "'c callback \<Rightarrow> BenchmarkItem list \<Rightarrow> 'c callback_world
     \<Rightarrow> (exn + string \<times> string list) option list
     \<Rightarrow> ('c callback_world, exn + LLMResponse) future list \<times> 'c callback_world \<Rightarrow> bool"
where
  "call_inv callback items' c0 R st =
     (length R = length items' \<and> length (fst st) = length items' \<and>
      (\<forall>i < length items'. call_slot_ok callback (items' ! i) (fst st ! i) (R ! i)) \<and>
      take (length (callback_calls c0)) (callback_calls (snd st)) = callback_calls c0 \<and>
      mset (new_calls c0 (snd st)) = mset (logged items' R))"

subsection \<open>The scores of one response\<close>

text \<open>
  \<open>last_score n calls\<close> is the score returned by the last call made under the name \<open>n\<close>.
\<close>

definition last_score :: "string \<Rightarrow> (string \<times> (exn + 'f)) list \<Rightarrow> 'f option" where
  "last_score n calls =
     (case filter (\<lambda>c. fst c = n) calls of
        [] \<Rightarrow> None
      | c # cs \<Rightarrow> (case snd (last (c # cs)) of Inl e \<Rightarrow> None | Inr v \<Rightarrow> Some v))"

subsection \<open>Means\<close>

text \<open>
  \<open>values_of m d\<close> are the values stored under \<open>m\<close> in an association list, \<open>all_values\<close>
  those of a list of RunData, in the order of the list. \<open>observed m rds\<close> follows the words
  of the specification: the values \<^verbatim>\<open>scores[m]\<close> of exactly those RunData whose \<^verbatim>\<open>scores\<close>
  contains the key \<open>m\<close>.

  \<open>float_sum fl vs\<close> is the sum that a loop \<^verbatim>\<open>total += v\<close> computes from \<^verbatim>\<open>float()\<close> in the
  arithmetic \<open>fl\<close>, first value first, and \<open>float_mean fl vs\<close> is that sum divided by the
  number of values. \<open>arithmetic_mean\<close> is the mean of real numbers.
\<close>

definition values_of :: "string \<Rightarrow> (string \<times> 'f) list \<Rightarrow> 'f list" where
  "values_of m kvs = map snd (filter (\<lambda>kv. fst kv = m) kvs)"

definition all_values :: "string \<Rightarrow> 'f RunData list \<Rightarrow> 'f list" where
  "all_values m rds = concat (map (\<lambda>item. values_of m (scores item)) rds)"

definition observed :: "string \<Rightarrow> 'f RunData list \<Rightarrow> 'f list" where
  "observed m rds = List.map_filter (\<lambda>item. map_of (scores item) m) rds"

definition float_sum :: "'f float_ops \<Rightarrow> 'f list \<Rightarrow> 'f" where
  "float_sum fl vs = foldl (float_add fl) (float_zero fl) vs"

definition float_mean :: "'f float_ops \<Rightarrow> 'f list \<Rightarrow> 'f" where
  "float_mean fl vs = float_div fl (float_sum fl vs) (int (length vs))"

definition arithmetic_mean :: "real list \<Rightarrow> real" where
  "arithmetic_mean vs = sum_list vs / real (length vs)"

definition reference_overall_scores :: "'f float_ops \<Rightarrow> 'f RunData list \<Rightarrow> string \<Rightarrow> 'f option" where
  "reference_overall_scores fl rds m =
     (if observed m rds = [] then None else Some (float_mean fl (observed m rds)))"

definition quotients ::
  "'f float_ops \<Rightarrow> (string \<times> int) list \<Rightarrow> (string \<times> 'f) list \<Rightarrow> (string \<times> 'f) list
     \<Rightarrow> (string \<times> 'f) list"
where
  "quotients fl num_scores total_scores overall =
     fold (\<lambda>(metric, total') d.
             AList.update metric (float_div fl total' (getd 0 num_scores metric)) d)
       total_scores overall"

text \<open>A RunData list whose \<^verbatim>\<open>scores\<close> are dicts: no key twice.\<close>

definition dict_scores :: "'f RunData list \<Rightarrow> bool" where
  "dict_scores rds = (\<forall>item \<in> set rds. distinct (map fst (scores item)))"

text \<open>The Run built from a list of RunData (lines 68 to 81).\<close>

definition run_of :: "'f float_ops \<Rightarrow> 'f RunData list \<Rightarrow> exn + 'f Run" where
  "run_of fl rds =
     (case aggregate fl rds of
        Inl e \<Rightarrow> Inl e
      | Inr ov \<Rightarrow> Inr \<lparr>overall_scores = ov, run_data = rds, run_id = None\<rparr>)"

definition empty_run :: "'f Run" where
  "empty_run = \<lparr>overall_scores = [], run_data = [], run_id = None\<rparr>"

subsection \<open>The reference implementation of the scoring stage\<close>

text \<open>
  The sequential, unparallelised loop: score the responses first to last on one thread,
  each to its end before the next, and stop at the first exception.
\<close>

fun score_sequential ::
  "'f ValidateScorer \<Rightarrow> LLMResponse list \<Rightarrow> world \<Rightarrow> (exn + 'f RunData list) \<times> world"
where
  "score_sequential self [] w = (Inr [], w)"
| "score_sequential self (response # rest) w =
     (case run_prog (score_item_rundata self response) w of
        (Inl e, w') \<Rightarrow> (Inl e, w')
      | (Inr item, w') \<Rightarrow>
          (case score_sequential self rest w' of
             (Inl e, w'') \<Rightarrow> (Inl e, w'')
           | (Inr rds, w'') \<Rightarrow> (Inr (item # rds), w'')))"

section \<open>IEEE 754 double precision\<close>

text \<open>
  The float arithmetic of CPython: binary64 with rounding to nearest, ties to even. A
  finite double is the real number it denotes (the sign of a zero is not represented:
  \<^verbatim>\<open>-0.0 == 0.0\<close> in Python). \<open>exponent x\<close> is the integer part of the binary logarithm of
  \<open>\<bar>x\<bar>\<close>, found by halving or doubling; \<open>quantum x\<close> is the distance between neighbouring
  doubles at \<open>x\<close>, with 53 significant bits and the least exponent \<open>-1022\<close> (below it the
  doubles are subnormal, with quantum \<open>2 ^ -1074\<close>). \<open>round_double x\<close> is the double nearest
  to the real \<open>x\<close>, an infinity when the rounded magnitude reaches \<open>2 ^ 1024\<close>.
\<close>

datatype double = Finite real | PInf | NInf | NaN

fun halvings :: "nat \<Rightarrow> real \<Rightarrow> int" where
  "halvings 0 x = 0"
| "halvings (Suc n) x = (if 2 \<le> x then 1 + halvings n (x / 2) else 0)"

fun doublings :: "nat \<Rightarrow> real \<Rightarrow> int" where
  "doublings 0 x = 0"
| "doublings (Suc n) x = (if x < 1 then doublings n (x * 2) - 1 else 0)"

definition exponent :: "real \<Rightarrow> int" where
  "exponent x = (if 1 \<le> \<bar>x\<bar> then halvings 1100 \<bar>x\<bar> else doublings 1100 \<bar>x\<bar>)"

definition quantum :: "real \<Rightarrow> real" where
  "quantum x =
     (let k = max (exponent x) (- 1022) - 52
      in if 0 \<le> k then 2 ^ nat k else 1 / 2 ^ nat (- k))"

definition round_half_even :: "real \<Rightarrow> int" where
  "round_half_even r =
     (let n = \<lfloor>r\<rfloor>; d = r - of_int n
      in if d < 1 / 2 then n else if 1 / 2 < d then n + 1 else if even n then n else n + 1)"

definition round_double :: "real \<Rightarrow> double" where
  "round_double x =
     (let y = of_int (round_half_even (x / quantum x)) * quantum x
      in if 2 ^ 1024 \<le> \<bar>y\<bar> then (if 0 < x then PInf else NInf) else Finite y)"

text \<open>\<^verbatim>\<open>a + b\<close> on floats.\<close>

definition double_add :: "double \<Rightarrow> double \<Rightarrow> double" where
  "double_add a b =
     (case a of
        NaN \<Rightarrow> NaN
      | PInf \<Rightarrow> (case b of NaN \<Rightarrow> NaN | NInf \<Rightarrow> NaN | PInf \<Rightarrow> PInf | Finite y \<Rightarrow> PInf)
      | NInf \<Rightarrow> (case b of NaN \<Rightarrow> NaN | PInf \<Rightarrow> NaN | NInf \<Rightarrow> NInf | Finite y \<Rightarrow> NInf)
      | Finite x \<Rightarrow>
          (case b of NaN \<Rightarrow> NaN | PInf \<Rightarrow> PInf | NInf \<Rightarrow> NInf
           | Finite y \<Rightarrow> round_double (x + y)))"

text \<open>
  \<^verbatim>\<open>a / n\<close> for a float \<open>a\<close> and an int \<open>n\<close>: the int is converted to a float and the
  quotient rounded. Python raises \<^verbatim>\<open>ZeroDivisionError\<close> when \<open>n\<close> is zero; \<open>mean_scores\<close>
  makes that test before it divides, so the value given here for \<open>n = 0\<close> is never used.
\<close>

definition double_div :: "double \<Rightarrow> int \<Rightarrow> double" where
  "double_div a n =
     (case a of
        NaN \<Rightarrow> NaN
      | PInf \<Rightarrow> (if 0 < n then PInf else NInf)
      | NInf \<Rightarrow> (if 0 < n then NInf else PInf)
      | Finite x \<Rightarrow>
          (case round_double (of_int n) of
             Finite y \<Rightarrow> (if y = 0 then NaN else round_double (x / y))
           | PInf \<Rightarrow> Finite 0
           | NInf \<Rightarrow> Finite 0
           | NaN \<Rightarrow> NaN))"

definition binary64 :: "double float_ops" where
  "binary64 = \<lparr>float_zero = Finite 0, float_add = double_add, float_div = double_div\<rparr>"

section \<open>Example inputs\<close>

text \<open>
  The inputs at which the theorems are instantiated, with the floats of \<open>binary64\<close>: the
  benchmark item of the specification's example (question \<^verbatim>\<open>2+2?\<close>, reference answer \<^verbatim>\<open>4\<close>),
  responses that differ in their answer, and five metrics. \<open>metric_A\<close> scores the answer
  \<^verbatim>\<open>4\<close> with \<^verbatim>\<open>0.5\<close> and any other answer with \<^verbatim>\<open>1.0\<close>, \<open>metric_B\<close> always returns \<^verbatim>\<open>1.0\<close>,
  \<open>metric_A_again\<close> has the name of \<open>metric_A\<close> and always returns \<^verbatim>\<open>0.0\<close>,
  \<open>metric_raising\<close> raises on the answer \<^verbatim>\<open>boom\<close>. \<open>metric_wide\<close> returns \<^verbatim>\<open>1e16\<close> on the
  answer \<^verbatim>\<open>big\<close>, \<^verbatim>\<open>-1e16\<close> on \<^verbatim>\<open>neg\<close>, \<^verbatim>\<open>1.0\<close> on \<^verbatim>\<open>one\<close> and \<^verbatim>\<open>3.0\<close> otherwise. The
  callbacks count their calls in their state; \<open>ex_callback_raising\<close> raises on the question
  \<^verbatim>\<open>b\<close>.
\<close>

definition ex_item :: "string \<Rightarrow> BenchmarkItem" where
  "ex_item q = \<lparr>question = q, answer = ''4'', reference_context = None\<rparr>"

definition ex_response :: "string \<Rightarrow> LLMResponse" where
  "ex_response a =
     \<lparr>llm_answer = a, llm_context_list = [''math context''],
      benchmark_item = ex_item ''2+2?''\<rparr>"

definition ex_rundata :: "(string \<times> double) list \<Rightarrow> string \<Rightarrow> double RunData" where
  "ex_rundata d a =
     \<lparr>scores = d, reference_question = ''2+2?'', reference_answer = ''4'',
      answer_given = a, context_given = [''math context'']\<rparr>"

definition metric_A :: "double Metric" where
  "metric_A =
     \<lparr>name = ''A'',
      metric_score = (\<lambda>r s. (Inr (if llm_answer r = ''4'' then Finite (1 / 2) else Finite 1), s))\<rparr>"

definition metric_B :: "double Metric" where
  "metric_B = \<lparr>name = ''B'', metric_score = (\<lambda>r s. (Inr (Finite 1), s))\<rparr>"

definition metric_A_again :: "double Metric" where
  "metric_A_again = \<lparr>name = ''A'', metric_score = (\<lambda>r s. (Inr (Finite 0), s))\<rparr>"

definition metric_raising :: "double Metric" where
  "metric_raising =
     \<lparr>name = ''R'',
      metric_score =
        (\<lambda>r s. (if llm_answer r = ''boom'' then Inl (Exception ''judge failed'')
                else Inr (Finite 1), s))\<rparr>"

definition metric_wide :: "double Metric" where
  "metric_wide =
     \<lparr>name = ''W'',
      metric_score =
        (\<lambda>r s. (Inr (if llm_answer r = ''big'' then Finite 10000000000000000
                      else if llm_answer r = ''neg'' then Finite (- 10000000000000000)
                      else if llm_answer r = ''one'' then Finite 1 else Finite 3), s))\<rparr>"

definition ex_scorer :: "double Metric list \<Rightarrow> double ValidateScorer" where
  "ex_scorer ms = \<lparr>metrics = ms, model_evaluator = ''gpt-4-turbo-preview''\<rparr>"

definition ex_world :: world where
  "ex_world = \<lparr>heap = [], trace = []\<rparr>"

definition ex_calls :: "nat callback_world" where
  "ex_calls = \<lparr>callback_state = 0, callback_calls = []\<rparr>"

definition ex_callback :: "nat callback" where
  "ex_callback q c = (Inr (q, [''math context'']), Suc c)"

definition ex_callback_raising :: "nat callback" where
  "ex_callback_raising q c =
     (if q = ''b'' then Inl (Exception ''callback failed'') else Inr (q, [''math context'']),
      Suc c)"

section \<open>Lemmas\<close>

subsection \<open>Programs\<close>

lemma run_Return: "run_prog (Return r) w = (r, w)"
  by simp

lemma run_Act: "run_prog (Act f) w = (case f w of (p, w') \<Rightarrow> run_prog p w')"
  by (simp split: prod.splits)

lemma prog_induct [case_names Return Act]:
  assumes "\<And>r. P (Return r)" and "\<And>f. (\<And>w. P (fst (f w))) \<Longrightarrow> P (Act f)"
  shows "P p"
proof (induction p)
  case (Return r)
  then show ?case by (rule assms(1))
next
  case (Act f)
  show ?case
  proof (rule assms(2))
    fix w
    show "P (fst (f w))"
      by (rule Act) (auto simp: prod_set_defs intro: rangeI)
  qed
qed

subsection \<open>What every step of a task preserves, the pool preserves\<close>

lemma task_step_length: "length (fst (task_step fn args i st)) = length (fst st)"
  by (cases st) (simp add: task_step_def split: future.splits prog.splits prod.splits)

lemma worker_step_inv:
  assumes inv: "\<And>i st. i < length args \<Longrightarrow> I st \<Longrightarrow> I (task_step fn args i st)"
    and len: "\<And>st. I st \<Longrightarrow> length (fst st) = length args"
    and "I st"
  shows "I (worker_step max_workers fn args i st)"
  using assms by (auto simp: worker_step_def)

lemma fold_worker_step_inv:
  assumes inv: "\<And>i st. i < length args \<Longrightarrow> I st \<Longrightarrow> I (task_step fn args i st)"
    and len: "\<And>st. I st \<Longrightarrow> length (fst st) = length args"
    and "I st"
  shows "I (fold (worker_step max_workers fn args) order st)"
  using assms(3)
proof (induction order arbitrary: st)
  case Nil
  then show ?case by simp
next
  case (Cons i order)
  have "I (worker_step max_workers fn args i st)"
    using inv len Cons.prems by (rule worker_step_inv)
  from Cons.IH [OF this] show ?case by simp
qed

lemma run_inv:
  assumes inv: "\<And>i st. i < length args \<Longrightarrow> I st \<Longrightarrow> I (task_step fn args i st)"
    and len: "\<And>st. I st \<Longrightarrow> length (fst st) = length args"
    and i: "i < length args"
  shows "I (futures[i := Running p], w) \<Longrightarrow>
         I (futures[i := Finished (fst (run_prog p w))], snd (run_prog p w))"
proof (induction p arbitrary: futures w rule: prog_induct)
  case (Return r)
  have l: "i < length futures" using len [OF Return] i by simp
  have "task_step fn args i (futures[i := Running (Return r)], w) = (futures[i := Finished r], w)"
    using l by (simp add: task_step_def)
  with inv [OF i Return] show ?case by simp
next
  case (Act f)
  have l: "i < length futures" using len [OF Act.prems] i by simp
  obtain p' w' where f: "f w = (p', w')" by (cases "f w")
  have "task_step fn args i (futures[i := Running (Act f)], w) = (futures[i := Running p'], w')"
    using l f by (simp add: task_step_def)
  with inv [OF i Act.prems] have "I (futures[i := Running (fst (f w))], w')" using f by simp
  from Act.IH [OF this]
  have "I (futures[i := Finished (fst (run_prog p' w'))], snd (run_prog p' w'))" using f by simp
  then show ?case using f by (simp add: run_Act)
qed

lemma await_futures:
  "i < length (fst st) \<Longrightarrow>
   fst (snd (await fn args i st)) = (fst st)[i := Finished (fst (await fn args i st))]"
proof -
  assume i: "i < length (fst st)"
  obtain futures w where s: "st = (futures, w)" by (cases st)
  show ?thesis
  proof (cases "futures ! i")
    case (Finished r)
    then have "futures[i := Finished r] = futures"
      using i s by (simp add: list_update_same_conv)
    then show ?thesis using s Finished by (simp add: await_def)
  qed (simp_all add: s await_def case_prod_beta)
qed

lemma await_inv:
  assumes inv: "\<And>i st. i < length args \<Longrightarrow> I st \<Longrightarrow> I (task_step fn args i st)"
    and len: "\<And>st. I st \<Longrightarrow> length (fst st) = length args"
    and i: "i < length args"
    and st: "I st"
  shows "I (snd (await fn args i st))"
proof -
  obtain futures w where s: "st = (futures, w)" by (cases st)
  have l: "i < length futures" using len [OF st] i s by simp
  show ?thesis
  proof (cases "futures ! i")
    case Queued
    have "task_step fn args i st = (futures[i := Running (fn (args ! i))], w)"
      using s Queued by (simp add: task_step_def)
    with inv [OF i st] have "I (futures[i := Running (fn (args ! i))], w)" by simp
    from run_inv [of args I fn i, OF inv len i this]
    show ?thesis using s Queued by (simp add: await_def case_prod_beta)
  next
    case (Running p)
    then have "futures[i := Running p] = futures" using l by (simp add: list_update_same_conv)
    with st s have "I (futures[i := Running p], w)" by simp
    from run_inv [of args I fn i, OF inv len i this]
    show ?thesis using s Running by (simp add: await_def case_prod_beta)
  next
    case (Finished r)
    then show ?thesis using s st by (simp add: await_def)
  qed
qed

lemma fold_await_inv:
  assumes inv: "\<And>i st. i < length args \<Longrightarrow> I st \<Longrightarrow> I (task_step fn args i st)"
    and len: "\<And>st. I st \<Longrightarrow> length (fst st) = length args"
  shows "I st \<Longrightarrow> set is \<subseteq> {..<length args} \<Longrightarrow>
         I (fold (\<lambda>i st. if is_running (fst st ! i) then snd (await fn args i st) else st) is st)"
proof (induction "is" arbitrary: st)
  case Nil
  then show ?case by simp
next
  case (Cons i "is")
  then have i: "i < length args" by simp
  have "I (if is_running (fst st ! i) then snd (await fn args i st) else st)"
    using await_inv [of args I fn i st, OF inv len i Cons.prems(1)] Cons.prems(1) by simp
  from Cons.IH [OF this] Cons.prems(2) show ?case by simp
qed

lemma shutdown_inv:
  assumes inv: "\<And>i st. i < length args \<Longrightarrow> I st \<Longrightarrow> I (task_step fn args i st)"
    and len: "\<And>st. I st \<Longrightarrow> length (fst st) = length args"
    and st: "I st"
  shows "I (shutdown fn args st)"
proof -
  have "set [0..<length (fst st)] \<subseteq> {..<length args}" using len [OF st] by auto
  from fold_await_inv [of args I fn st "[0..<length (fst st)]", OF inv len st this]
  show ?thesis by (simp add: shutdown_def)
qed

lemma result_iterator_inv:
  assumes inv: "\<And>i st. i < length args \<Longrightarrow> I st \<Longrightarrow> I (task_step fn args i st)"
    and len: "\<And>st. I st \<Longrightarrow> length (fst st) = length args"
  shows "I st \<Longrightarrow> set is \<subseteq> {..<length args} \<Longrightarrow> I (snd (result_iterator fn args is st))"
proof (induction "is" arbitrary: st)
  case Nil
  then show ?case by simp
next
  case (Cons i "is")
  then have i: "i < length args" and rest: "set is \<subseteq> {..<length args}" by simp_all
  obtain r st' where a: "await fn args i st = (r, st')" by (cases "await fn args i st")
  have st': "I st'" using await_inv [of args I fn i st, OF inv len i Cons.prems(1)] a by simp
  show ?case
  proof (cases r)
    case (Inl e)
    then show ?thesis using a shutdown_inv [of args I fn st', OF inv len st'] by simp
  next
    case (Inr y)
    obtain res st'' where r: "result_iterator fn args is st' = (res, st'')"
      by (cases "result_iterator fn args is st'")
    with Cons.IH [OF st' rest] have "I st''" by simp
    then show ?thesis using a Inr r by (cases res) simp_all
  qed
qed

lemma pool_run_inv:
  assumes inv: "\<And>i st. i < length args \<Longrightarrow> I st \<Longrightarrow> I (task_step fn args i st)"
    and len: "\<And>st. I st \<Longrightarrow> length (fst st) = length args"
    and init: "I (replicate (length args) Queued, w)"
  shows "I (snd (pool_run max_workers order fn args w))"
proof -
  let ?st = "fold (worker_step max_workers fn args) order (replicate (length args) Queued, w)"
  have a: "I ?st"
    using inv len init by (rule fold_worker_step_inv)
  have b: "set [0..<length args] \<subseteq> {..<length args}" by auto
  from result_iterator_inv [of args I fn ?st "[0..<length args]", OF inv len a b]
  show ?thesis by (simp add: pool_run_def)
qed

subsection \<open>The futures at the end\<close>

lemma finished_stays:
  "i < length (fst st) \<Longrightarrow> fst st ! i = Finished r \<Longrightarrow> fst (task_step fn args j st) ! i = Finished r"
  by (cases st; cases "i = j")
     (auto simp: task_step_def split: future.splits prog.splits prod.splits)

lemma await_length: "i < length (fst st) \<Longrightarrow> length (fst (snd (await fn args i st))) = length (fst st)"
  by (simp add: await_futures)

lemma await_result:
  "i < length (fst st) \<Longrightarrow> fst (snd (await fn args i st)) ! i = Finished (fst (await fn args i st))"
  by (simp add: await_futures)

lemma holds_at_step:
  "i < n \<Longrightarrow> holds_at n i r st \<Longrightarrow> holds_at n i r (task_step fn args j st)"
  by (simp add: holds_at_def task_step_length finished_stays)

lemma holds_at_result_iterator:
  assumes "i < length args" "holds_at (length args) i r st" "set is \<subseteq> {..<length args}"
  shows "holds_at (length args) i r (snd (result_iterator fn args is st))"
proof (rule result_iterator_inv [where I = "holds_at (length args) i r"])
  show "holds_at (length args) i r (task_step fn args j st)"
    if "j < length args" "holds_at (length args) i r st" for j st
    using assms(1) that(2) by (rule holds_at_step)
  show "length (fst st) = length args" if "holds_at (length args) i r st" for st
    using that by (simp add: holds_at_def)
qed (use assms in auto)

lemma holds_at_shutdown:
  assumes "i < length args" "holds_at (length args) i r st"
  shows "holds_at (length args) i r (shutdown fn args st)"
proof (rule shutdown_inv [where I = "holds_at (length args) i r"])
  show "holds_at (length args) i r (task_step fn args j st)"
    if "j < length args" "holds_at (length args) i r st" for j st
    using assms(1) that(2) by (rule holds_at_step)
  show "length (fst st) = length args" if "holds_at (length args) i r st" for st
    using that by (simp add: holds_at_def)
qed (use assms in auto)

lemma length_result_iterator:
  assumes "length (fst st) = length args" "set is \<subseteq> {..<length args}"
  shows "length (fst (snd (result_iterator fn args is st))) = length args"
proof (rule result_iterator_inv [where I = "\<lambda>st. length (fst st) = length args"])
  show "length (fst (task_step fn args j st)) = length args"
    if "length (fst st) = length args" for j st
    using that by (simp add: task_step_length)
qed (use assms in auto)

lemma result_iterator_futures:
  assumes "length (fst st) = length args" "set is \<subseteq> {..<length args}"
  shows "case fst (result_iterator fn args is st) of
           Inr ys \<Rightarrow>
             map (\<lambda>i. fst (snd (result_iterator fn args is st)) ! i) is =
             map (\<lambda>y. Finished (Inr y)) ys
         | Inl e \<Rightarrow>
             \<exists>k < length is.
               fst (snd (result_iterator fn args is st)) ! (is ! k) = Finished (Inl e) \<and>
               (\<forall>j < k. \<exists>y. fst (snd (result_iterator fn args is st)) ! (is ! j) =
                                Finished (Inr y))"
  using assms
proof (induction "is" arbitrary: st)
  case Nil
  then show ?case by simp
next
  case (Cons i "is")
  then have i: "i < length args" and rest: "set is \<subseteq> {..<length args}" by simp_all
  have il: "i < length (fst st)" using i Cons.prems(1) by simp
  obtain r st' where a: "await fn args i st = (r, st')" by (cases "await fn args i st")
  have len': "length (fst st') = length args"
    using await_length [OF il, of fn args] a Cons.prems(1) by simp
  have at: "holds_at (length args) i r st'"
    using await_result [OF il, of fn args] a len' by (simp add: holds_at_def)
  show ?case
  proof (cases r)
    case (Inl e)
    have "holds_at (length args) i (Inl e) (shutdown fn args st')"
      using holds_at_shutdown [OF i] at Inl by simp
    then have "fst (shutdown fn args st') ! i = Finished (Inl e)" by (simp add: holds_at_def)
    then show ?thesis using a Inl by (auto intro: exI [of _ 0])
  next
    case (Inr y)
    obtain res st'' where r: "result_iterator fn args is st' = (res, st'')"
      by (cases "result_iterator fn args is st'")
    have whole: "result_iterator fn args (i # is) st =
                 (case res of Inl e \<Rightarrow> (Inl e, st'') | Inr ys \<Rightarrow> (Inr (y # ys), st''))"
      using a Inr r by simp
    have "holds_at (length args) i (Inr y) st''"
      using holds_at_result_iterator [OF i _ rest, of "Inr y" st' fn] at Inr r by simp
    then have ati: "fst st'' ! i = Finished (Inr y)" by (simp add: holds_at_def)
    note ih = Cons.IH [OF len' rest]
    show ?thesis
    proof (cases res)
      case (Inl e)
      with ih r obtain k where k: "k < length is" "fst st'' ! (is ! k) = Finished (Inl e)"
        "\<forall>j < k. \<exists>y. fst st'' ! (is ! j) = Finished (Inr y)"
        by auto
      have "\<forall>j < Suc k. \<exists>y. fst st'' ! ((i # is) ! j) = Finished (Inr y)"
      proof (intro allI impI)
        fix j assume "j < Suc k"
        then show "\<exists>y. fst st'' ! ((i # is) ! j) = Finished (Inr y)"
          using ati k(3) by (cases j) auto
      qed
      then show ?thesis using whole Inl k(1,2) by (auto intro!: exI [of _ "Suc k"])
    next
      case (Inr ys)
      with ih r have "map (\<lambda>i. fst st'' ! i) is = map (\<lambda>y. Finished (Inr y)) ys" by simp
      then show ?thesis using whole Inr ati by simp
    qed
  qed
qed

subsection \<open>After an exception no task is left running\<close>

lemma await_other:
  "i < length (fst st) \<Longrightarrow> j \<noteq> i \<Longrightarrow> fst (snd (await fn args i st)) ! j = fst st ! j"
  by (simp add: await_futures)

lemma shutdown_step_keeps:
  assumes "i < length (fst st)" "\<not> is_running (fst st ! j)"
  shows "\<not> is_running
           (fst (if is_running (fst st ! i) then snd (await fn args i st) else st) ! j)"
proof (cases "j = i")
  case True
  then show ?thesis using assms by simp
next
  case False
  then show ?thesis using assms by (simp add: await_other)
qed

lemma shutdown_fold_keeps:
  "set is \<subseteq> {..<length (fst st)} \<Longrightarrow> \<not> is_running (fst st ! j) \<Longrightarrow>
   \<not> is_running
      (fst (fold (\<lambda>i st. if is_running (fst st ! i) then snd (await fn args i st) else st)
              is st) ! j)"
proof (induction "is" arbitrary: st)
  case Nil
  then show ?case by simp
next
  case (Cons i "is")
  let ?st = "if is_running (fst st ! i) then snd (await fn args i st) else st"
  have i: "i < length (fst st)" using Cons.prems(1) by simp
  have len: "length (fst ?st) = length (fst st)" using i by (simp add: await_length)
  have "\<not> is_running (fst ?st ! j)" using i Cons.prems(2) by (rule shutdown_step_keeps)
  moreover have "set is \<subseteq> {..<length (fst ?st)}" using Cons.prems(1) len by simp
  ultimately show ?case using Cons.IH [of ?st] by simp
qed

lemma shutdown_fold_done:
  "set is \<subseteq> {..<length (fst st)} \<Longrightarrow> j \<in> set is \<Longrightarrow>
   \<not> is_running
      (fst (fold (\<lambda>i st. if is_running (fst st ! i) then snd (await fn args i st) else st)
              is st) ! j)"
proof (induction "is" arbitrary: st)
  case Nil
  then show ?case by simp
next
  case (Cons i "is")
  let ?st = "if is_running (fst st ! i) then snd (await fn args i st) else st"
  have i: "i < length (fst st)" using Cons.prems(1) by simp
  have len: "length (fst ?st) = length (fst st)" using i by (simp add: await_length)
  have sub: "set is \<subseteq> {..<length (fst ?st)}" using Cons.prems(1) len by simp
  show ?case
  proof (cases "j \<in> set is")
    case True
    from Cons.IH [OF sub True] show ?thesis by simp
  next
    case False
    with Cons.prems(2) have ji: "j = i" by simp
    have "\<not> is_running (fst ?st ! i)"
      using i by (simp add: await_result is_running_def)
    from shutdown_fold_keeps [where fn = fn and args = args, OF sub this] ji
    show ?thesis by simp
  qed
qed

lemma shutdown_no_running:
  "j < length (fst st) \<Longrightarrow> \<not> is_running (fst (shutdown fn args st) ! j)"
  unfolding shutdown_def by (rule shutdown_fold_done) auto

lemma result_iterator_no_running:
  assumes "length (fst st) = length args" "set is \<subseteq> {..<length args}"
    and "fst (result_iterator fn args is st) = Inl e" "j < length args"
  shows "\<not> is_running (fst (snd (result_iterator fn args is st)) ! j)"
  using assms
proof (induction "is" arbitrary: st)
  case Nil
  then show ?case by simp
next
  case (Cons i "is")
  then have i: "i < length args" and rest: "set is \<subseteq> {..<length args}" by simp_all
  have il: "i < length (fst st)" using i Cons.prems(1) by simp
  obtain r st' where a: "await fn args i st = (r, st')" by (cases "await fn args i st")
  have len': "length (fst st') = length args"
    using await_length [OF il, of fn args] a Cons.prems(1) by simp
  show ?case
  proof (cases r)
    case (Inl e')
    have "\<not> is_running (fst (shutdown fn args st') ! j)"
      using shutdown_no_running [of j st'] len' Cons.prems(4) by simp
    then show ?thesis using a Inl by simp
  next
    case (Inr y)
    obtain res st'' where r: "result_iterator fn args is st' = (res, st'')"
      by (cases "result_iterator fn args is st'")
    with Cons.prems(3) a Inr have "res = Inl e" by (cases res) auto
    with Cons.IH [OF len' rest _ Cons.prems(4)] r
    have "\<not> is_running (fst st'' ! j)" by simp
    then show ?thesis using a Inr r \<open>res = Inl e\<close> by simp
  qed
qed

lemma slots_okD:
  "slots_ok self rs w0 w futures G \<Longrightarrow> i < length rs \<Longrightarrow>
   slot_ok self w0 w (rs ! i) (futures ! i) (G ! i)"
  by (simp add: slots_ok_def)

lemma slots_ok_update:
  assumes "slots_ok self rs w0 w futures G" "i < length rs"
    and "slot_ok self w0 w (rs ! i) fut (G ! i)"
  shows "slots_ok self rs w0 w (futures[i := fut]) G"
  unfolding slots_ok_def
proof (intro conjI allI impI)
  show "length (futures[i := fut]) = length rs" using assms(1) by (simp add: slots_ok_def)
  fix j assume j: "j < length rs"
  show "slot_ok self w0 w (rs ! j) (futures[i := fut] ! j) (G ! j)"
  proof (cases "j = i")
    case True
    then show ?thesis using assms by (simp add: slots_ok_def)
  next
    case False
    then show ?thesis using assms(1) j by (simp add: slots_ok_def)
  qed
qed

lemma new_trace_append:
  "take (length (trace w0)) (trace w) = trace w0 \<Longrightarrow>
   new_trace w0 (w\<lparr>heap := h, trace := trace w @ evs\<rparr>) = new_trace w0 w @ evs"
proof -
  assume "take (length (trace w0)) (trace w) = trace w0"
  then have "length (trace w0) \<le> length (trace w)"
    by (metis length_take min.cobounded1 min.commute)
  then show ?thesis by (simp add: new_trace_def)
qed

lemma take_append_keep:
  "take (length (trace w0)) (trace w) = trace w0 \<Longrightarrow>
   take (length (trace w0)) (trace w @ evs) = trace w0"
proof -
  assume a: "take (length (trace w0)) (trace w) = trace w0"
  then have "length (trace w0) \<le> length (trace w)"
    by (metis length_take min.cobounded1 min.commute)
  then show ?thesis using a by simp
qed

lemma events_at_none:
  "\<forall>ev \<in> set tr. event_address ev < a \<Longrightarrow> events_at a tr = []"
  by (auto simp: events_at_def filter_empty_conv)

lemma events_at_append: "events_at a (tr @ evs) = events_at a tr @ events_at a evs"
  by (simp add: events_at_def)

lemma events_at_simps:
  "events_at a [Constructed b m] = (if a = b then [Constructed b m] else [])"
  "events_at a [Scored n r b] = (if a = b then [Scored n r b] else [])"
  by (simp_all add: events_at_def event_address_def)

text \<open>a task is taken from the queue\<close>

lemma score_inv_start:
  assumes inv: "score_inv self rs w0 G (futures, w)" and i: "i < length rs"
    and q: "futures ! i = Queued"
  shows "score_inv self rs w0 G (futures[i := Running (score_item_rundata self (rs ! i))], w)"
proof -
  from inv have s: "slots_ok self rs w0 w futures G" by (simp add: score_inv_def)
  from slots_okD [OF s i] q have gi: "G ! i = None"
    by (cases "G ! i") (simp_all add: slot_ok_def)
  have "slot_ok self w0 w (rs ! i) (Running (score_item_rundata self (rs ! i))) (G ! i)"
    using gi by (simp add: slot_ok_def)
  from slots_ok_update [OF s i this] inv show ?thesis by (simp add: score_inv_def)
qed

text \<open>the outcome of a task is stored\<close>

lemma score_inv_store:
  assumes inv: "score_inv self rs w0 G (futures, w)" and i: "i < length rs"
    and q: "futures ! i = Running (Return x)"
  shows "score_inv self rs w0 G (futures[i := Finished x], w)"
proof -
  from inv have s: "slots_ok self rs w0 w futures G" by (simp add: score_inv_def)
  from slots_okD [OF s i] q
  have ok: "slot_ok self w0 w (rs ! i) (Running (Return x)) (G ! i)" by simp
  have "slot_ok self w0 w (rs ! i) (Finished x) (G ! i)"
  proof (cases "G ! i")
    case None
    with ok show ?thesis by (simp add: slot_ok_def score_item_rundata_def)
  next
    case (Some a)
    with ok consider
      (looping) ms d where "Return x = score_metrics ms (rs ! i) a d"
        "outcome_from ms (rs ! i) (heap w ! a) d = item_outcome self (rs ! i)"
        "events_at a (new_trace w0 w) @
           map (\<lambda>c. Scored (fst c) (rs ! i) a) (metric_calls ms (rs ! i) (heap w ! a)) =
         item_events self (rs ! i) a"
      | (returned) "x = item_outcome self (rs ! i)"
        "events_at a (new_trace w0 w) = item_events self (rs ! i) a"
      unfolding slot_ok_def by auto
    then show ?thesis
    proof cases
      case looping
      from looping(1) have ms: "ms = []" by (cases ms) simp_all
      with looping have "x = item_outcome self (rs ! i)"
        "events_at a (new_trace w0 w) = item_events self (rs ! i) a"
        by (simp_all add: outcome_from_def rundata_of_def)
      then show ?thesis using Some by (simp add: slot_ok_def)
    next
      case returned
      then show ?thesis using Some by (simp add: slot_ok_def)
    qed
  qed
  from slots_ok_update [OF s i this] inv show ?thesis by (simp add: score_inv_def)
qed

text \<open>what a step of one task leaves of the others\<close>

lemma slot_ok_frame:
  assumes "slot_ok self w0 w r fut g"
    and "\<And>b. g = Some b \<Longrightarrow> heap w' ! b = heap w ! b"
    and "\<And>b. g = Some b \<Longrightarrow> events_at b (new_trace w0 w') = events_at b (new_trace w0 w)"
  shows "slot_ok self w0 w' r fut g"
proof (cases g)
  case None
  with assms(1) show ?thesis by (simp add: slot_ok_def)
next
  case (Some b)
  with assms(1) show ?thesis
    using assms(2) [OF Some] assms(3) [OF Some]
    by (cases fut) (simp_all add: slot_ok_def)
qed

lemma world_ext_trace_le: "world_ext w0 w \<Longrightarrow> length (trace w0) \<le> length (trace w)"
  unfolding world_ext_def by (metis length_take min.cobounded1 min.commute)

lemma new_trace_snoc:
  "world_ext w0 w \<Longrightarrow> trace w' = trace w @ evs \<Longrightarrow> new_trace w0 w' = new_trace w0 w @ evs"
  using world_ext_trace_le [of w0 w] by (simp add: new_trace_def)

text \<open>a task constructs its service\<close>

lemma score_inv_alloc:
  assumes inv: "score_inv self rs w0 G (futures, w)" and i: "i < length rs"
    and gi: "G ! i = None"
  defines "a \<equiv> length (heap w)"
  defines "w1 \<equiv> w\<lparr>heap := heap w @ [fresh_service self],
                    trace := trace w @ [Constructed a (model_evaluator self)]\<rparr>"
  shows "score_inv self rs w0 (G[i := Some a])
           (futures[i := Running (score_metrics (metrics self) (rs ! i) a [])], w1)"
proof -
  from inv have we: "world_ext w0 w" and ow: "owners_ok (length rs) w0 w G"
    and sl: "slots_ok self rs w0 w futures G"
    by (simp_all add: score_inv_def)
  have tr1: "trace w1 = trace w @ [Constructed a (model_evaluator self)]"
    and hp1: "heap w1 = heap w @ [fresh_service self]"
    by (simp_all add: w1_def)
  have nt: "new_trace w0 w1 = new_trace w0 w @ [Constructed a (model_evaluator self)]"
    using we tr1 by (rule new_trace_snoc)
  have lenG: "length G = length rs" using ow by (simp add: owners_ok_def)
  have range: "length (heap w0) \<le> b \<and> b < length (heap w)"
    if "j < length rs" "G ! j = Some b" for j b
    using ow that by (simp add: owners_ok_def)
  have old_events: "event_address ev < a" if "ev \<in> set (new_trace w0 w)" for ev
    using we that by (simp add: world_ext_def a_def)
  have we1: "world_ext w0 w1"
    unfolding world_ext_def
  proof (intro conjI allI impI ballI)
    show "take (length (trace w0)) (trace w1) = trace w0"
      using we world_ext_trace_le [OF we] by (simp add: tr1 world_ext_def)
    show "length (heap w0) \<le> length (heap w1)" using we by (simp add: hp1 world_ext_def)
    show "heap w1 ! b = heap w0 ! b" if "b < length (heap w0)" for b
      using we that by (simp add: hp1 world_ext_def nth_append)
    show "length (heap w0) \<le> event_address ev" if "ev \<in> set (new_trace w0 w1)" for ev
      using that we by (auto simp: nt world_ext_def event_address_def a_def)
    show "event_address ev < length (heap w1)" if "ev \<in> set (new_trace w0 w1)" for ev
      using that we by (auto simp: nt hp1 world_ext_def event_address_def a_def)
  qed
  have ow1: "owners_ok (length rs) w0 w1 (G[i := Some a])"
    unfolding owners_ok_def
  proof (intro conjI allI impI)
    show "length (G[i := Some a]) = length rs" using lenG by simp
    show "length (heap w0) \<le> b" if "j < length rs" "G[i := Some a] ! j = Some b" for j b
      using that range [of j b] we lenG i
      by (cases "j = i") (auto simp: world_ext_def a_def)
    show "b < length (heap w1)" if "j < length rs" "G[i := Some a] ! j = Some b" for j b
      using that range [of j b] lenG i
      by (cases "j = i") (auto simp: hp1 a_def)
    show "j = k" if "j < length rs" "k < length rs"
      "G[i := Some a] ! j = Some b \<and> G[i := Some a] ! k = Some b" for j k b
    proof (cases "j = i \<or> k = i")
      case True
      show ?thesis
      proof (rule ccontr)
        assume ne: "j \<noteq> k"
        with True that lenG i have "\<exists>l < length rs. G ! l = Some a"
          by (cases "j = i") auto
        then obtain l where "l < length rs" "G ! l = Some a" by blast
        from range [OF this] show False by (simp add: a_def)
      qed
    next
      case False
      then show ?thesis using that ow by (auto simp: owners_ok_def)
    qed
    show "\<exists>j < length rs. G[i := Some a] ! j = Some b"
      if "length (heap w0) \<le> b \<and> b < length (heap w1)" for b
    proof (cases "b = a")
      case True
      then show ?thesis using i lenG by (auto intro!: exI [of _ i])
    next
      case False
      with that have "length (heap w0) \<le> b \<and> b < length (heap w)" by (simp add: hp1 a_def)
      with ow obtain j where j: "j < length rs" "G ! j = Some b" by (auto simp: owners_ok_def)
      with gi have "j \<noteq> i" by auto
      with j show ?thesis by (auto intro!: exI [of _ j])
    qed
  qed
  have frame: "slot_ok self w0 w1 (rs ! j) (futures ! j) (G ! j)"
    if j: "j < length rs" for j
  proof (rule slot_ok_frame [OF slots_okD [OF sl j]])
    fix b assume b: "G ! j = Some b"
    from range [OF j b] have lt: "b < a" by (simp add: a_def)
    show "heap w1 ! b = heap w ! b" using lt by (simp add: hp1 nth_append a_def)
    show "events_at b (new_trace w0 w1) = events_at b (new_trace w0 w)"
      using lt by (simp add: nt events_at_append events_at_simps)
  qed
  have mine: "slot_ok self w0 w1 (rs ! i)
                (Running (score_metrics (metrics self) (rs ! i) a [])) (Some a)"
  proof -
    have "events_at a (new_trace w0 w) = []"
      using old_events by (intro events_at_none) auto
    then have ev: "events_at a (new_trace w0 w1) = [Constructed a (model_evaluator self)]"
      by (simp add: nt events_at_append events_at_simps)
    have at: "heap w1 ! a = fresh_service self" by (simp add: hp1 a_def)
    show ?thesis
      unfolding slot_ok_def
      by (simp add: at ev item_outcome_def item_events_def item_calls_def) blast
  qed
  have sl1: "slots_ok self rs w0 w1
               (futures[i := Running (score_metrics (metrics self) (rs ! i) a [])])
               (G[i := Some a])"
    unfolding slots_ok_def
  proof (intro conjI allI impI)
    show "length (futures[i := Running (score_metrics (metrics self) (rs ! i) a [])]) = length rs"
      using sl by (simp add: slots_ok_def)
    fix j assume j: "j < length rs"
    show "slot_ok self w0 w1 (rs ! j)
            (futures[i := Running (score_metrics (metrics self) (rs ! i) a [])] ! j)
            (G[i := Some a] ! j)"
    proof (cases "j = i")
      case True
      then show ?thesis using mine i lenG sl by (simp add: slots_ok_def)
    next
      case False
      then show ?thesis using frame [OF j] by simp
    qed
  qed
  show ?thesis using we1 ow1 sl1 by (simp add: score_inv_def)
qed

text \<open>a task calls a metric on its own service\<close>

lemma score_inv_call:
  assumes inv: "score_inv self rs w0 G (futures, w)" and i: "i < length rs"
    and gi: "G ! i = Some a"
    and w1: "w1 = w\<lparr>heap := (heap w)[a := s'], trace := trace w @ [Scored n r a]\<rparr>"
    and mine: "slot_ok self w0 w1 (rs ! i) fut (Some a)"
  shows "score_inv self rs w0 G (futures[i := fut], w1)"
proof -
  from inv have we: "world_ext w0 w" and ow: "owners_ok (length rs) w0 w G"
    and sl: "slots_ok self rs w0 w futures G"
    by (simp_all add: score_inv_def)
  have tr1: "trace w1 = trace w @ [Scored n r a]"
    and hp1: "heap w1 = (heap w)[a := s']"
    by (simp_all add: w1)
  have nt: "new_trace w0 w1 = new_trace w0 w @ [Scored n r a]"
    using we tr1 by (rule new_trace_snoc)
  have lenG: "length G = length rs" using ow by (simp add: owners_ok_def)
  have range: "length (heap w0) \<le> b \<and> b < length (heap w)"
    if "j < length rs" "G ! j = Some b" for j b
    using ow that by (simp add: owners_ok_def)
  have inj: "j = k" if "j < length rs" "k < length rs" "G ! j = Some b" "G ! k = Some b" for j k b
    using ow that by (auto simp: owners_ok_def)
  have a: "length (heap w0) \<le> a" "a < length (heap w)" using range [OF i gi] by simp_all
  have we1: "world_ext w0 w1"
    unfolding world_ext_def
  proof (intro conjI allI impI ballI)
    show "take (length (trace w0)) (trace w1) = trace w0"
      using we world_ext_trace_le [OF we] by (simp add: tr1 world_ext_def)
    show "length (heap w0) \<le> length (heap w1)" using we by (simp add: hp1 world_ext_def)
    show "heap w1 ! b = heap w0 ! b" if "b < length (heap w0)" for b
      using we that a by (simp add: hp1 world_ext_def)
    show "length (heap w0) \<le> event_address ev" if "ev \<in> set (new_trace w0 w1)" for ev
      using that we a by (auto simp: nt world_ext_def event_address_def)
    show "event_address ev < length (heap w1)" if "ev \<in> set (new_trace w0 w1)" for ev
      using that we a by (auto simp: nt hp1 world_ext_def event_address_def)
  qed
  have ow1: "owners_ok (length rs) w0 w1 G"
    using ow by (simp add: owners_ok_def hp1)
  have sl1: "slots_ok self rs w0 w1 (futures[i := fut]) G"
    unfolding slots_ok_def
  proof (intro conjI allI impI)
    show "length (futures[i := fut]) = length rs" using sl by (simp add: slots_ok_def)
    fix j assume j: "j < length rs"
    show "slot_ok self w0 w1 (rs ! j) (futures[i := fut] ! j) (G ! j)"
    proof (cases "j = i")
      case True
      then show ?thesis using mine i gi sl by (simp add: slots_ok_def)
    next
      case False
      have "slot_ok self w0 w1 (rs ! j) (futures ! j) (G ! j)"
      proof (rule slot_ok_frame [OF slots_okD [OF sl j]])
        fix b assume b: "G ! j = Some b"
        have ne: "b \<noteq> a" using inj [OF j i b] gi False by auto
        show "heap w1 ! b = heap w ! b" using ne by (simp add: hp1)
        show "events_at b (new_trace w0 w1) = events_at b (new_trace w0 w)"
          using ne by (simp add: nt events_at_append events_at_simps)
      qed
      then show ?thesis using False by simp
    qed
  qed
  show ?thesis using we1 ow1 sl1 by (simp add: score_inv_def)
qed

lemma score_metrics_Nil_outcome:
  "score_metrics [] r a d = Return (outcome_from [] r s d)"
  by (simp add: outcome_from_def rundata_of_def)

lemma slot_ok_after_call:
  assumes out: "outcome_from (metric # rest) r (heap w ! a) d = item_outcome self r"
    and ev: "events_at a (new_trace w0 w) @
               map (\<lambda>c. Scored (fst c) r a) (metric_calls (metric # rest) r (heap w ! a)) =
             item_events self r a"
    and we: "world_ext w0 w" and a: "a < length (heap w)"
    and call: "call_score metric r a w = (res, w1)"
  shows "slot_ok self w0 w1 r
           (Running (case res of Inl e \<Rightarrow> Return (Inl e)
                     | Inr v \<Rightarrow> score_metrics rest r a (AList.update (name metric) v d)))
           (Some a)"
proof -
  obtain s' where ms: "metric_score metric r (heap w ! a) = (res, s')"
    and w1: "w1 = w\<lparr>heap := (heap w)[a := s'], trace := trace w @ [Scored (name metric) r a]\<rparr>"
    using call by (auto simp: call_score_def split: prod.splits)
  have nt: "new_trace w0 w1 = new_trace w0 w @ [Scored (name metric) r a]"
    using we by (rule new_trace_snoc) (simp add: w1)
  have at: "heap w1 ! a = s'" using a by (simp add: w1)
  have ev1: "events_at a (new_trace w0 w1) =
             events_at a (new_trace w0 w) @ [Scored (name metric) r a]"
    by (simp add: nt events_at_append events_at_simps)
  show ?thesis
  proof (cases res)
    case (Inl e)
    have "item_outcome self r = Inl e"
      using out ms Inl by (simp add: outcome_from_def)
    moreover have "events_at a (new_trace w0 w1) = item_events self r a"
      using ev ms Inl by (simp add: ev1)
    ultimately show ?thesis using Inl by (simp add: slot_ok_def)
  next
    case (Inr v)
    have "outcome_from rest r (heap w1 ! a) (AList.update (name metric) v d) = item_outcome self r"
      using out ms Inr by (simp add: outcome_from_def at)
    moreover have "events_at a (new_trace w0 w1) @
        map (\<lambda>c. Scored (fst c) r a) (metric_calls rest r (heap w1 ! a)) = item_events self r a"
      using ev ms Inr by (simp add: ev1 at)
    ultimately show ?thesis using Inr by (auto simp: slot_ok_def)
  qed
qed

lemma call_score_world:
  "call_score metric r a w = (res, w1) \<Longrightarrow>
   \<exists>s'. w1 = w\<lparr>heap := (heap w)[a := s'], trace := trace w @ [Scored (name metric) r a]\<rparr>"
  by (auto simp: call_score_def split: prod.splits)

text \<open>every step of every task keeps the invariant\<close>

lemma score_inv_task_step:
  assumes inv: "\<exists>G. score_inv self rs w0 G st" and i: "i < length rs"
  shows "\<exists>G. score_inv self rs w0 G (task_step (score_item_rundata self) rs i st)"
proof -
  obtain futures w where st: "st = (futures, w)" by (cases st)
  from inv obtain G where G: "score_inv self rs w0 G (futures, w)" by (auto simp: st)
  then have we: "world_ext w0 w" and ow: "owners_ok (length rs) w0 w G"
    and sl: "slots_ok self rs w0 w futures G"
    by (simp_all add: score_inv_def)
  note slot = slots_okD [OF sl i]
  show ?thesis
  proof (cases "futures ! i")
    case Queued
    from score_inv_start [OF G i Queued] show ?thesis
      by (auto simp: st task_step_def Queued)
  next
    case (Finished x)
    then show ?thesis using G by (auto simp: st task_step_def)
  next
    case (Running p)
    show ?thesis
    proof (cases p)
      case (Return x)
      from score_inv_store [OF G i] Running Return show ?thesis
        by (auto simp: st task_step_def)
    next
      case (Act f)
      show ?thesis
      proof (cases "G ! i")
        case None
        with slot Running Act have f: "Act f = score_item_rundata self (rs ! i)"
          by (simp add: slot_ok_def)
        have fw: "f w = (score_metrics (metrics self) (rs ! i) (length (heap w)) [],
                    w\<lparr>heap := heap w @ [fresh_service self],
                      trace := trace w @ [Constructed (length (heap w)) (model_evaluator self)]\<rparr>)"
          using f by (auto simp: score_item_rundata_def new_OpenAIService_def fresh_service_def)
        have "score_inv self rs w0 (G[i := Some (length (heap w))])
                (task_step (score_item_rundata self) rs i st)"
          using score_inv_alloc [OF G i None]
          by (simp add: st task_step_def Running Act fw)
        then show ?thesis ..
      next
        case (Some a)
        with slot Running Act obtain ms d where
          p: "Act f = score_metrics ms (rs ! i) a d"
          and out: "outcome_from ms (rs ! i) (heap w ! a) d = item_outcome self (rs ! i)"
          and ev: "events_at a (new_trace w0 w) @
                     map (\<lambda>c. Scored (fst c) (rs ! i) a) (metric_calls ms (rs ! i) (heap w ! a)) =
                   item_events self (rs ! i) a"
          by (auto simp: slot_ok_def)
        from p obtain metric rest where ms: "ms = metric # rest" by (cases ms) auto
        obtain res w1 where call: "call_score metric (rs ! i) a w = (res, w1)"
          by (cases "call_score metric (rs ! i) a w")
        have a: "a < length (heap w)" using ow i Some by (simp add: owners_ok_def)
        from call_score_world [OF call] obtain s' where
          w1: "w1 = w\<lparr>heap := (heap w)[a := s'],
                      trace := trace w @ [Scored (name metric) (rs ! i) a]\<rparr>" ..
        have f: "f w = (case res of Inl e \<Rightarrow> Return (Inl e)
                        | Inr v \<Rightarrow> score_metrics rest (rs ! i) a (AList.update (name metric) v d),
                        w1)"
          using p call by (simp add: ms split: sum.splits)
        from score_inv_call [OF G i Some w1
            slot_ok_after_call [OF out [unfolded ms] ev [unfolded ms] we a call]]
        show ?thesis
          by (auto simp: st task_step_def Running Act f)
      qed
    qed
  qed
qed

subsection \<open>Outcomes of a list of tasks\<close>

lemma gather_map_Inr: "gather (map Inr ys) = Inr ys"
  by (induction ys) auto

lemma gather_Inr_D: "gather rs = Inr ys \<Longrightarrow> rs = map Inr ys"
  by (induction rs arbitrary: ys rule: gather.induct) (auto split: sum.splits)

lemma gather_Inl:
  "gather rs = Inl e \<Longrightarrow> \<exists>k < length rs. rs ! k = Inl e \<and> (\<forall>j<k. \<exists>y. rs ! j = Inr y)"
proof (induction rs rule: gather.induct)
  case 1
  then show ?case by simp
next
  case (2 e' rs)
  then show ?case by auto
next
  case (3 y rs)
  then obtain k where k: "k < length rs" "rs ! k = Inl e" "\<forall>j<k. \<exists>y. rs ! j = Inr y"
    by (auto split: sum.splits)
  show ?case
  proof (intro exI [of _ "Suc k"] conjI allI impI)
    fix j assume "j < Suc k"
    then show "\<exists>z. (Inr y # rs) ! j = Inr z" using k(3) by (cases j) auto
  qed (use k in auto)
qed

lemma gather_first_error:
  "i < length rs \<Longrightarrow> rs ! i = Inl e \<Longrightarrow>
   \<exists>k e'. k \<le> i \<and> rs ! k = Inl e' \<and> gather rs = Inl e' \<and> (\<forall>j<k. \<exists>y. rs ! j = Inr y)"
proof (induction rs arbitrary: i rule: gather.induct)
  case 1
  then show ?case by simp
next
  case (2 e0 rs)
  show ?case by (intro exI [of _ 0] exI [of _ e0]) simp
next
  case (3 y rs)
  then obtain i' where i': "i = Suc i'" by (cases i) auto
  with 3 obtain k e' where k: "k \<le> i'" "rs ! k = Inl e'" "gather rs = Inl e'"
    "\<forall>j<k. \<exists>y. rs ! j = Inr y"
    by fastforce
  show ?case
  proof (intro exI [of _ "Suc k"] exI [of _ e'] conjI allI impI)
    fix j assume "j < Suc k"
    then show "\<exists>z. (Inr y # rs) ! j = Inr z" using k(4) by (cases j) auto
  qed (use k i' in auto)
qed

lemma gather_total:
  "\<forall>r \<in> set rs. \<exists>y. r = Inr y \<Longrightarrow> \<exists>ys. gather rs = Inr ys"
  by (induction rs rule: gather.induct) auto

lemma gather_first_Inl:
  "k < length rs \<Longrightarrow> rs ! k = Inl e \<Longrightarrow> (\<forall>j<k. \<exists>y. rs ! j = Inr y) \<Longrightarrow> gather rs = Inl e"
proof (induction rs arbitrary: k rule: gather.induct)
  case 1
  then show ?case by simp
next
  case (2 e0 rs)
  then show ?case by (cases k) auto
next
  case (3 y rs)
  then obtain k' where k': "k = Suc k'" by (cases k) auto
  have "gather rs = Inl e"
  proof (rule 3(1))
    show "k' < length rs" using 3(2) k' by simp
    show "rs ! k' = Inl e" using 3(3) k' by simp
    show "\<forall>j<k'. \<exists>y. rs ! j = Inr y"
    proof (intro allI impI)
      fix j assume "j < k'"
      then have "Suc j < k" using k' by simp
      with 3(4) obtain z where "(Inr y # rs) ! Suc j = Inr z" by blast
      then show "\<exists>y. rs ! j = Inr y" by simp
    qed
  qed
  then show ?case by simp
qed

subsection \<open>The scoring stage under every schedule\<close>

lemma score_inv_init:
  "score_inv self rs w (replicate (length rs) None) (replicate (length rs) Queued, w)"
  by (simp add: score_inv_def world_ext_def owners_ok_def slots_ok_def slot_ok_def new_trace_def)

lemma score_inv_length: "\<exists>G. score_inv self rs w0 G st \<Longrightarrow> length (fst st) = length rs"
  by (auto simp: score_inv_def slots_ok_def)

lemma score_pool_inv:
  "\<exists>G. score_inv self rs w G (snd (pool_run max_workers order (score_item_rundata self) rs w))"
proof (rule pool_run_inv [where I = "\<lambda>st. \<exists>G. score_inv self rs w G st"])
  show "\<exists>G. score_inv self rs w G (task_step (score_item_rundata self) rs i st)"
    if "i < length rs" "\<exists>G. score_inv self rs w G st" for i st
    using that(2) that(1) by (rule score_inv_task_step)
  show "length (fst st) = length rs" if "\<exists>G. score_inv self rs w G st" for st
    using that by (rule score_inv_length)
  show "\<exists>G. score_inv self rs w G (replicate (length rs) Queued, w)"
    using score_inv_init by blast
qed

lemma slot_ok_Finished:
  assumes "slot_ok self w0 w r (Finished x) g"
  shows "x = item_outcome self r"
    and "\<exists>a. g = Some a \<and> events_at a (new_trace w0 w) = item_events self r a"
  using assms by (cases g; simp add: slot_ok_def)+

lemma fold_worker_step_length:
  "length (fst (fold (worker_step max_workers fn args) order st)) = length (fst st)"
  by (induction order arbitrary: st) (simp_all add: worker_step_def task_step_length)

lemma pool_run_futures:
  "case fst (pool_run max_workers order fn args w) of
     Inr ys \<Rightarrow>
       length ys = length args \<and>
       (\<forall>i < length args. fst (snd (pool_run max_workers order fn args w)) ! i =
          Finished (Inr (ys ! i)))
   | Inl e \<Rightarrow>
       (\<exists>k < length args.
          fst (snd (pool_run max_workers order fn args w)) ! k = Finished (Inl e) \<and>
          (\<forall>j < k. \<exists>y. fst (snd (pool_run max_workers order fn args w)) ! j =
             Finished (Inr y))) \<and>
       (\<forall>j < length args.
          \<not> is_running (fst (snd (pool_run max_workers order fn args w)) ! j))"
proof -
  let ?st = "fold (worker_step max_workers fn args) order (replicate (length args) Queued, w)"
  let ?is = "[0..<length args]"
  have len: "length (fst ?st) = length args" by (simp add: fold_worker_step_length)
  have sub: "set ?is \<subseteq> {..<length args}" by auto
  note fut = result_iterator_futures [OF len sub, of fn]
  show ?thesis
  proof (cases "fst (result_iterator fn args ?is ?st)")
    case (Inr ys)
    with fut have eq: "map (\<lambda>i. fst (snd (result_iterator fn args ?is ?st)) ! i) ?is =
                   map (\<lambda>y. Finished (Inr y)) ys"
      by simp
    from arg_cong [OF eq, of length] have l: "length ys = length args" by simp
    have "fst (snd (result_iterator fn args ?is ?st)) ! i = Finished (Inr (ys ! i))"
      if "i < length args" for i
      using arg_cong [OF eq, of "\<lambda>xs. xs ! i"] that l by simp
    with l Inr show ?thesis by (simp add: pool_run_def)
  next
    case (Inl e)
    with fut obtain k where k: "k < length ?is"
      "fst (snd (result_iterator fn args ?is ?st)) ! (?is ! k) = Finished (Inl e)"
      "\<forall>j < k. \<exists>y. fst (snd (result_iterator fn args ?is ?st)) ! (?is ! j) = Finished (Inr y)"
      by auto
    have a: "\<exists>k < length args.
          fst (snd (result_iterator fn args ?is ?st)) ! k = Finished (Inl e) \<and>
          (\<forall>j < k. \<exists>y. fst (snd (result_iterator fn args ?is ?st)) ! j = Finished (Inr y))"
    proof (intro exI [of _ k] conjI allI impI)
      show "k < length args" using k(1) by simp
      show "fst (snd (result_iterator fn args ?is ?st)) ! k = Finished (Inl e)"
        using k(1,2) by simp
      fix j assume "j < k"
      with k(1,3) show "\<exists>y. fst (snd (result_iterator fn args ?is ?st)) ! j = Finished (Inr y)"
        by (auto dest!: spec [of _ j])
    qed
    have b: "\<not> is_running (fst (snd (result_iterator fn args ?is ?st)) ! j)"
      if "j < length args" for j
      using len sub Inl that by (rule result_iterator_no_running)
    from a b Inl show ?thesis by (simp add: pool_run_def)
  qed
qed

lemma pool_run_score:
  "fst (pool_run max_workers order (score_item_rundata self) rs w) =
   gather (map (item_outcome self) rs)"
proof -
  let ?pr = "pool_run max_workers order (score_item_rundata self) rs w"
  from score_pool_inv [of self rs w max_workers order]
  obtain G where G: "score_inv self rs w G (snd ?pr)" by blast
  then have sl: "slots_ok self rs w (snd (snd ?pr)) (fst (snd ?pr)) G"
    by (simp add: score_inv_def)
  note fut = pool_run_futures [where max_workers = max_workers and order = order
      and fn = "score_item_rundata self" and args = rs and w = w]
  have fin: "x = item_outcome self (rs ! i)"
    if "i < length rs" "fst (snd ?pr) ! i = Finished x" for i x
    using slots_okD [OF sl that(1)] that(2) slot_ok_Finished(1) by metis
  show ?thesis
  proof (cases "fst ?pr")
    case (Inr ys)
    with fut have l: "length ys = length rs"
      and all: "\<forall>i < length rs. fst (snd ?pr) ! i = Finished (Inr (ys ! i))"
      by simp_all
    have "map (item_outcome self) rs = map Inr ys"
    proof (rule nth_equalityI)
      show "length (map (item_outcome self) rs) = length (map Inr ys)" using l by simp
      fix i assume "i < length (map (item_outcome self) rs)"
      then have i: "i < length rs" by simp
      from fin [OF i all [rule_format, OF i]]
      show "map (item_outcome self) rs ! i = map Inr ys ! i" using i l by simp
    qed
    then show ?thesis using Inr by (simp add: gather_map_Inr)
  next
    case (Inl e)
    with fut obtain k where k: "k < length rs" "fst (snd ?pr) ! k = Finished (Inl e)"
      "\<forall>j < k. \<exists>y. fst (snd ?pr) ! j = Finished (Inr y)"
      by auto
    have "gather (map (item_outcome self) rs) = Inl e"
    proof (rule gather_first_Inl [of k])
      show "k < length (map (item_outcome self) rs)" using k(1) by simp
      show "map (item_outcome self) rs ! k = Inl e" using fin [OF k(1) k(2)] k(1) by simp
      show "\<forall>j<k. \<exists>y. map (item_outcome self) rs ! j = Inr y"
      proof (intro allI impI)
        fix j assume j: "j < k"
        with k(3) obtain y where y: "fst (snd ?pr) ! j = Finished (Inr y)" by blast
        have jl: "j < length rs" using j k(1) by simp
        from fin [OF jl y, symmetric]
        show "\<exists>y. map (item_outcome self) rs ! j = Inr y" using jl by simp
      qed
    qed
    then show ?thesis using Inl by simp
  qed
qed

lemma executor_map_score:
  "fst (executor_map max_workers order (score_item_rundata self) rs w) =
   gather (map (item_outcome self) rs)"
  using pool_run_score [of max_workers order self rs w]
  by (simp add: executor_map_def case_prod_beta)

subsection \<open>One response on its own\<close>

lemma run_score_metrics:
  "a < length (heap w) \<Longrightarrow>
   fst (run_prog (score_metrics ms r a d) w) = outcome_from ms r (heap w ! a) d"
proof (induction ms arbitrary: d w)
  case Nil
  show ?case by (simp add: outcome_from_def rundata_of_def)
next
  case (Cons metric rest)
  obtain res s' where ms: "metric_score metric r (heap w ! a) = (res, s')"
    by (cases "metric_score metric r (heap w ! a)")
  let ?w1 = "w\<lparr>heap := (heap w)[a := s'], trace := trace w @ [Scored (name metric) r a]\<rparr>"
  have call: "call_score metric r a w = (res, ?w1)" by (simp add: call_score_def ms)
  show ?case
  proof (cases res)
    case (Inl e)
    then show ?thesis using call ms by (simp add: run_Act outcome_from_def)
  next
    case (Inr v)
    have a1: "a < length (heap ?w1)" using Cons.prems by simp
    have "fst (run_prog (score_metrics rest r a (AList.update (name metric) v d)) ?w1) =
          outcome_from rest r (heap ?w1 ! a) (AList.update (name metric) v d)"
      using a1 by (rule Cons.IH)
    then show ?thesis using Inr call ms Cons.prems by (simp add: run_Act outcome_from_def)
  qed
qed

lemma run_score_item_rundata:
  "fst (run_prog (score_item_rundata self r) w) = item_outcome self r"
proof -
  let ?w1 = "w\<lparr>heap := heap w @ [fresh_service self],
                trace := trace w @ [Constructed (length (heap w)) (model_evaluator self)]\<rparr>"
  have "fst (run_prog (score_metrics (metrics self) r (length (heap w)) []) ?w1) =
        outcome_from (metrics self) r (heap ?w1 ! length (heap w)) []"
    by (rule run_score_metrics) simp
  then show ?thesis
    by (simp add: score_item_rundata_def run_Act new_OpenAIService_def item_outcome_def
        fresh_service_def)
qed

subsection \<open>The world after the scoring stage\<close>

lemma pool_run_not_running:
  assumes "j < length args"
  shows "\<not> is_running (fst (snd (pool_run max_workers order fn args w)) ! j)"
proof -
  note fut = pool_run_futures [where max_workers = max_workers and order = order
      and fn = fn and args = args and w = w]
  show ?thesis
  proof (cases "fst (pool_run max_workers order fn args w)")
    case (Inl e)
    with fut assms show ?thesis by simp
  next
    case (Inr ys)
    with fut assms show ?thesis by (simp add: is_running_def)
  qed
qed

lemma slot_ok_settled:
  assumes "slot_ok self w0 w r fut g" "\<not> is_running fut"
  shows "case g of
           None \<Rightarrow> fut = Queued
         | Some a \<Rightarrow> fut = Finished (item_outcome self r) \<and>
                     events_at a (new_trace w0 w) = item_events self r a"
  using assms by (cases g; cases fut) (simp_all add: slot_ok_def is_running_def)

lemma world_ext_trace: "world_ext w0 w \<Longrightarrow> trace w = trace w0 @ new_trace w0 w"
  unfolding world_ext_def new_trace_def by (metis append_take_drop_id)

lemma executor_map_snd:
  "snd (executor_map max_workers order fn args w) =
   snd (snd (pool_run max_workers order fn args w))"
  by (simp add: executor_map_def case_prod_beta)

lemma executor_map_score_world:
  assumes w'_def: "w' = snd (executor_map max_workers order (score_item_rundata self) rs w)"
  shows "\<exists>G. world_ext w w' \<and> owners_ok (length rs) w w' G \<and>
           (\<forall>i < length rs. \<forall>a. G ! i = Some a \<longrightarrow>
              events_at a (new_trace w w') = item_events self (rs ! i) a) \<and>
           (\<forall>i < length rs. G ! i = None \<longrightarrow>
              (\<forall>ys. fst (executor_map max_workers order (score_item_rundata self) rs w) \<noteq>
                 Inr ys))"
proof -
  let ?pr = "pool_run max_workers order (score_item_rundata self) rs w"
  have w': "w' = snd (snd ?pr)" by (simp add: w'_def executor_map_snd)
  from score_pool_inv [of self rs w max_workers order]
  obtain G where G: "score_inv self rs w G (snd ?pr)" by blast
  then have we: "world_ext w w'" and ow: "owners_ok (length rs) w w' G"
    and sl: "slots_ok self rs w w' (fst (snd ?pr)) G"
    by (simp_all add: score_inv_def w')
  have settled: "case G ! i of
           None \<Rightarrow> fst (snd ?pr) ! i = Queued
         | Some a \<Rightarrow> fst (snd ?pr) ! i = Finished (item_outcome self (rs ! i)) \<and>
                     events_at a (new_trace w w') = item_events self (rs ! i) a"
    if "i < length rs" for i
    using slots_okD [OF sl that] pool_run_not_running [OF that] by (rule slot_ok_settled)
  have a: "events_at a (new_trace w w') = item_events self (rs ! i) a"
    if "i < length rs" "G ! i = Some a" for i a
    using settled [OF that(1)] that(2) by simp
  have b: "fst (executor_map max_workers order (score_item_rundata self) rs w) \<noteq> Inr ys"
    if i: "i < length rs" and n: "G ! i = None" for i ys
  proof
    assume "fst (executor_map max_workers order (score_item_rundata self) rs w) = Inr ys"
    then have r: "fst ?pr = Inr ys" by (simp add: executor_map_def case_prod_beta)
    note fut = pool_run_futures [where max_workers = max_workers and order = order
      and fn = "score_item_rundata self" and args = rs and w = w]
    from fut r i have "fst (snd ?pr) ! i = Finished (Inr (ys ! i))" by simp
    moreover from settled [OF i] n have "fst (snd ?pr) ! i = Queued" by simp
    ultimately show False by simp
  qed
  from we ow a b show ?thesis by blast
qed

subsection \<open>The generation stage under every schedule\<close>

lemma create_response_step:
  "create_response callback item =
     Act (\<lambda>c. (Return (response_of item (fst (callback (question item) (callback_state c)))),
               c\<lparr>callback_state := snd (callback (question item) (callback_state c)),
                 callback_calls := callback_calls c @
                   [(question item, fst (callback (question item) (callback_state c)))]\<rparr>))"
  by (simp add: create_response_def response_of_def case_prod_beta)

lemma logged_update:
  "i < length items' \<Longrightarrow> length R = length items' \<Longrightarrow> R ! i = None \<Longrightarrow>
   mset (logged items' (R[i := Some res])) =
   add_mset (question (items' ! i), res) (mset (logged items' R))"
proof (induction items' R arbitrary: i rule: logged.induct)
  case (1 item items' res' R)
  then show ?case by (cases i) auto
next
  case (2 item items' R)
  then show ?case by (cases i) auto
qed simp_all

lemma logged_mem:
  "i < length items' \<Longrightarrow> length R = length items' \<Longrightarrow> R ! i = Some res \<Longrightarrow>
   (question (items' ! i), res) \<in> set (logged items' R)"
proof (induction items' R arbitrary: i rule: logged.induct)
  case (1 item items' res' R)
  then show ?case by (cases i) auto
next
  case (2 item items' R)
  then show ?case by (cases i) auto
qed simp_all

lemma logged_memD:
  "(q, res) \<in> set (logged items' R) \<Longrightarrow>
   \<exists>i < length items'. i < length R \<and> R ! i = Some res \<and> q = question (items' ! i)"
proof (induction items' R rule: logged.induct)
  case (1 item items' res' R)
  from 1(2) consider "q = question item \<and> res = res'" | "(q, res) \<in> set (logged items' R)"
    by auto
  then show ?case
  proof cases
    case 1
    then show ?thesis by (intro exI [of _ 0]) simp
  next
    case 2
    from 1(1) [OF this] obtain i where "i < length items'" "i < length R" "R ! i = Some res"
      "q = question (items' ! i)" by blast
    then show ?thesis by (intro exI [of _ "Suc i"]) simp
  qed
next
  case (2 item items' R)
  then obtain i where "i < length items'" "i < length R" "R ! i = Some res"
      "q = question (items' ! i)" by auto
  then show ?case by (intro exI [of _ "Suc i"]) simp
qed simp_all

lemma logged_questions:
  "mset (map fst (logged items' R)) \<subseteq># mset (map question items')"
proof (induction items' R rule: logged.induct)
  case (2 item items' R)
  have "mset (map question items') \<subseteq># mset (map question (item # items'))" by simp
  from subset_mset.order_trans [OF 2 this] show ?case by simp
qed simp_all

lemma call_inv_task_step:
  assumes inv: "\<exists>R. call_inv callback items' c0 R st" and i: "i < length items'"
  shows "\<exists>R. call_inv callback items' c0 R (task_step (create_response callback) items' i st)"
proof -
  obtain futures c where st: "st = (futures, c)" by (cases st)
  from inv obtain R where R: "call_inv callback items' c0 R (futures, c)" by (auto simp: st)
  then have lR: "length R = length items'" and lF: "length futures = length items'"
    and slots: "\<And>j. j < length items' \<Longrightarrow> call_slot_ok callback (items' ! j) (futures ! j) (R ! j)"
    and pre: "take (length (callback_calls c0)) (callback_calls c) = callback_calls c0"
    and log: "mset (new_calls c0 c) = mset (logged items' R)"
    by (simp_all add: call_inv_def)
  note slot = slots [OF i]
  have keep: "call_inv callback items' c0 R (futures[i := fut], c)"
    if "call_slot_ok callback (items' ! i) fut (R ! i)" for fut
    unfolding call_inv_def
  proof (intro conjI allI impI)
    fix j assume j: "j < length items'"
    show "call_slot_ok callback (items' ! j) (fst (futures[i := fut], c) ! j) (R ! j)"
      using that slots [OF j] lF i by (cases "j = i") simp_all
  qed (use lR lF pre log in simp_all)
  show ?thesis
  proof (cases "futures ! i")
    case Queued
    with slot have "R ! i = None" by (cases "R ! i") (simp_all add: call_slot_ok_def)
    then have "call_slot_ok callback (items' ! i) (Running (create_response callback (items' ! i)))
                 (R ! i)"
      by (simp add: call_slot_ok_def)
    from keep [OF this] show ?thesis by (auto simp: st task_step_def Queued)
  next
    case (Finished x)
    then show ?thesis using R by (auto simp: st task_step_def)
  next
    case (Running p)
    show ?thesis
    proof (cases "R ! i")
      case (Some res)
      with slot Running have p: "p = Return (response_of (items' ! i) res)"
        and ex: "\<exists>s. fst (callback (question (items' ! i)) s) = res"
        by (simp_all add: call_slot_ok_def)
      have "call_slot_ok callback (items' ! i) (Finished (response_of (items' ! i) res)) (R ! i)"
        using Some ex by (simp add: call_slot_ok_def)
      from keep [OF this] show ?thesis by (auto simp: st task_step_def Running p)
    next
      case None
      with slot Running have p: "p = create_response callback (items' ! i)"
        by (simp add: call_slot_ok_def)
      let ?item = "items' ! i"
      let ?res = "fst (callback (question ?item) (callback_state c))"
      let ?c1 = "c\<lparr>callback_state := snd (callback (question ?item) (callback_state c)),
                   callback_calls := callback_calls c @ [(question ?item, ?res)]\<rparr>"
      have step: "task_step (create_response callback) items' i st =
                  (futures[i := Running (Return (response_of ?item ?res))], ?c1)"
        by (simp add: st task_step_def Running p create_response_step)
      have le: "length (callback_calls c0) \<le> length (callback_calls c)"
        using pre by (metis length_take min.cobounded1 min.commute)
      have "call_inv callback items' c0 (R[i := Some ?res])
              (futures[i := Running (Return (response_of ?item ?res))], ?c1)"
        unfolding call_inv_def
      proof (intro conjI allI impI)
        show "length (R[i := Some ?res]) = length items'" using lR by simp
        show "length (fst (futures[i := Running (Return (response_of ?item ?res))], ?c1)) =
              length items'" using lF by simp
        show "take (length (callback_calls c0))
                (callback_calls (snd (futures[i := Running (Return (response_of ?item ?res))], ?c1))) =
              callback_calls c0"
          using pre le by simp
        show "mset (new_calls c0 (snd (futures[i := Running (Return (response_of ?item ?res))], ?c1))) =
              mset (logged items' (R[i := Some ?res]))"
          using log le logged_update [OF i lR None, of ?res] by (simp add: new_calls_def)
        fix j assume j: "j < length items'"
        show "call_slot_ok callback (items' ! j)
                (fst (futures[i := Running (Return (response_of ?item ?res))], ?c1) ! j)
                (R[i := Some ?res] ! j)"
        proof (cases "j = i")
          case True
          have "\<exists>s. fst (callback (question ?item) s) = ?res" by blast
          then show ?thesis using True lR lF i by (simp add: call_slot_ok_def)
        next
          case False
          then show ?thesis using slots [OF j] by simp
        qed
      qed
      then show ?thesis unfolding step by blast
    qed
  qed
qed

lemma call_pool_inv:
  "\<exists>R. call_inv callback items' c R
         (snd (pool_run max_workers order (create_response callback) items' c))"
proof (rule pool_run_inv [where I = "\<lambda>st. \<exists>R. call_inv callback items' c R st"])
  show "\<exists>R. call_inv callback items' c R (task_step (create_response callback) items' i st)"
    if "i < length items'" "\<exists>R. call_inv callback items' c R st" for i st
    using that(2) that(1) by (rule call_inv_task_step)
  show "length (fst st) = length items'" if "\<exists>R. call_inv callback items' c R st" for st
    using that by (auto simp: call_inv_def)
  have "logged items' (replicate (length items') None) = []"
    by (induction items') simp_all
  then have "call_inv callback items' c (replicate (length items') None)
          (replicate (length items') Queued, c)"
    by (simp add: call_inv_def call_slot_ok_def new_calls_def)
  then show "\<exists>R. call_inv callback items' c R (replicate (length items') Queued, c)" ..
qed

lemma response_of_Inl: "response_of item res = Inl e \<longleftrightarrow> res = Inl e"
  by (auto simp: response_of_def split: sum.splits prod.splits)

lemma response_of_Inr:
  "response_of item res = Inr r \<longleftrightarrow>
   res = Inr (llm_answer r, llm_context_list r) \<and> benchmark_item r = item"
  by (cases res) (auto simp: response_of_def split: prod.splits)

text \<open>
  What the generation stage returns and what it has entered in the list of calls: \<open>R ! i\<close>
  is the outcome of the one call made for item \<open>i\<close>.
\<close>

lemma executor_map_calls:
  assumes c': "c' = snd (executor_map max_workers order (create_response callback) items' c)"
    and res: "res = fst (executor_map max_workers order (create_response callback) items' c)"
  shows "\<exists>R. length R = length items' \<and>
           (\<forall>i < length items'. \<forall>x. R ! i = Some x \<longrightarrow>
              (\<exists>s. fst (callback (question (items' ! i)) s) = x)) \<and>
           callback_calls c' = callback_calls c @ new_calls c c' \<and>
           mset (new_calls c c') = mset (logged items' R) \<and>
           (case res of
              Inr ys \<Rightarrow> length ys = length items' \<and>
                (\<forall>i < length items'.
                   R ! i = Some (Inr (llm_answer (ys ! i), llm_context_list (ys ! i))) \<and>
                   benchmark_item (ys ! i) = items' ! i)
            | Inl e \<Rightarrow> \<exists>k < length items'. R ! k = Some (Inl e) \<and>
                (\<forall>j < k. \<exists>v. R ! j = Some (Inr v)))"
proof -
  let ?pr = "pool_run max_workers order (create_response callback) items' c"
  have c'': "c' = snd (snd ?pr)" by (simp add: c' executor_map_snd)
  have res': "res = fst ?pr" by (simp add: res executor_map_def case_prod_beta)
  from call_pool_inv [of callback items' c max_workers order]
  obtain R where R: "call_inv callback items' c R (snd ?pr)" by blast
  then have lR: "length R = length items'"
    and slots: "\<And>j. j < length items' \<Longrightarrow>
                  call_slot_ok callback (items' ! j) (fst (snd ?pr) ! j) (R ! j)"
    and pre: "take (length (callback_calls c)) (callback_calls c') = callback_calls c"
    and log: "mset (new_calls c c') = mset (logged items' R)"
    by (simp_all add: call_inv_def c'')
  have fin: "\<exists>x. R ! j = Some x \<and> response_of (items' ! j) x = y"
    if "j < length items'" "fst (snd ?pr) ! j = Finished y" for j y
    using slots [OF that(1)] that(2) by (cases "R ! j") (auto simp: call_slot_ok_def)
  have a: "\<exists>s. fst (callback (question (items' ! i)) s) = x"
    if "i < length items'" "R ! i = Some x" for i x
    using slots [OF that(1)] that(2) by (simp add: call_slot_ok_def)
  have b: "callback_calls c' = callback_calls c @ new_calls c c'"
    unfolding new_calls_def using pre by (metis append_take_drop_id)
  note fut = pool_run_futures [where max_workers = max_workers and order = order
      and fn = "create_response callback" and args = items' and w = c]
  have d: "case res of
              Inr ys \<Rightarrow> length ys = length items' \<and>
                (\<forall>i < length items'.
                   R ! i = Some (Inr (llm_answer (ys ! i), llm_context_list (ys ! i))) \<and>
                   benchmark_item (ys ! i) = items' ! i)
            | Inl e \<Rightarrow> \<exists>k < length items'. R ! k = Some (Inl e) \<and>
                (\<forall>j < k. \<exists>v. R ! j = Some (Inr v))"
  proof (cases res)
    case (Inr ys)
    with res' have "fst ?pr = Inr ys" by simp
    with fut have l: "length ys = length items'"
      and all: "\<forall>i < length items'. fst (snd ?pr) ! i = Finished (Inr (ys ! i))"
      by simp_all
    have "R ! i = Some (Inr (llm_answer (ys ! i), llm_context_list (ys ! i))) \<and>
          benchmark_item (ys ! i) = items' ! i" if i: "i < length items'" for i
      using fin [OF i all [rule_format, OF i]] by (auto simp: response_of_Inr)
    with l Inr show ?thesis by simp
  next
    case (Inl e)
    with res' have "fst ?pr = Inl e" by simp
    with fut obtain k where k: "k < length items'" "fst (snd ?pr) ! k = Finished (Inl e)"
      "\<forall>j < k. \<exists>y. fst (snd ?pr) ! j = Finished (Inr y)"
      by auto
    have "R ! k = Some (Inl e)" using fin [OF k(1) k(2)] by (auto simp: response_of_Inl)
    moreover have "\<exists>v. R ! j = Some (Inr v)" if j: "j < k" for j
    proof -
      from k(3) j obtain y where y: "fst (snd ?pr) ! j = Finished (Inr y)" by blast
      have "j < length items'" using j k(1) by simp
      from fin [OF this y] show ?thesis by (auto simp: response_of_Inr)
    qed
    ultimately show ?thesis using Inl k(1) by auto
  qed
  from lR a b log d show ?thesis by blast
qed

subsection \<open>Evaluating the float arithmetic\<close>

lemma halvings_numeral:
  "halvings (numeral k) x = (if 2 \<le> x then 1 + halvings (pred_numeral k) (x / 2) else 0)"
  by (simp add: numeral_eq_Suc)

lemma doublings_numeral:
  "doublings (numeral k) x = (if x < 1 then doublings (pred_numeral k) (x * 2) - 1 else 0)"
  by (simp add: numeral_eq_Suc)

lemmas double_defs =
  binary64_def double_add_def double_div_def round_double_def round_half_even_def
  quantum_def exponent_def halvings_numeral doublings_numeral Let_def

subsection \<open>Aggregation\<close>

lemma getd_update:
  "getd d (AList.update k v al) k' = (if k' = k then v else getd d al k')"
  by (simp add: getd_def update_conv')

lemma keys_update: "fst ` set (AList.update k v al) = insert k (fst ` set al)"
  using dom_update [of k v al] by (simp add: dom_map_of_conv_image_fst)

lemma add_scores_props:
  "add_scores fl kvs (t, n) = (t', n') \<Longrightarrow>
     getd (float_zero fl) t' m =
       foldl (float_add fl) (getd (float_zero fl) t m) (values_of m kvs) \<and>
     getd 0 n' m = getd 0 n m + int (length (values_of m kvs)) \<and>
     fst ` set t' = fst ` set t \<union> fst ` set kvs \<and>
     fst ` set n' = fst ` set n \<union> fst ` set kvs \<and>
     (distinct (map fst t) \<longrightarrow> distinct (map fst t'))"
proof (induction kvs arbitrary: t n)
  case Nil
  then show ?case by (simp add: values_of_def)
next
  case (Cons kv kvs)
  obtain k v where kv: "kv = (k, v)" by (cases kv)
  let ?t = "AList.update k (float_add fl (getd (float_zero fl) t k) v) t"
  let ?n = "AList.update k (getd 0 n k + 1) n"
  from Cons.prems kv have "add_scores fl kvs (?t, ?n) = (t', n')" by simp
  from Cons.IH [OF this] show ?case
    by (auto simp: kv getd_update keys_update values_of_def distinct_update)
qed

lemma sum_scores_props:
  "sum_scores fl rds (t, n) = (t', n') \<Longrightarrow>
     getd (float_zero fl) t' m =
       foldl (float_add fl) (getd (float_zero fl) t m) (all_values m rds) \<and>
     getd 0 n' m = getd 0 n m + int (length (all_values m rds)) \<and>
     fst ` set t' = fst ` set t \<union> (\<Union>item \<in> set rds. fst ` set (scores item)) \<and>
     fst ` set n' = fst ` set n \<union> (\<Union>item \<in> set rds. fst ` set (scores item)) \<and>
     (distinct (map fst t) \<longrightarrow> distinct (map fst t'))"
proof (induction rds arbitrary: t n)
  case Nil
  then show ?case by (simp add: all_values_def)
next
  case (Cons item rds)
  obtain t1 n1 where step: "add_scores fl (scores item) (t, n) = (t1, n1)"
    by (cases "add_scores fl (scores item) (t, n)")
  with Cons.prems have rest: "sum_scores fl rds (t1, n1) = (t', n')" by simp
  note a = add_scores_props [OF step, of m]
  note b = Cons.IH [OF rest]
  show ?case
  proof (intro conjI)
    show "getd (float_zero fl) t' m =
          foldl (float_add fl) (getd (float_zero fl) t m) (all_values m (item # rds))"
      using a b by (simp add: all_values_def)
    show "getd 0 n' m = getd 0 n m + int (length (all_values m (item # rds)))"
      using a b by (simp add: all_values_def)
    show "fst ` set t' = fst ` set t \<union> (\<Union>item \<in> set (item # rds). fst ` set (scores item))"
      using a b by auto
    show "fst ` set n' = fst ` set n \<union> (\<Union>item \<in> set (item # rds). fst ` set (scores item))"
      using a b by auto
    show "distinct (map fst t) \<longrightarrow> distinct (map fst t')"
      using a b by simp
  qed
qed

lemma values_of_empty_iff: "values_of m kvs = [] \<longleftrightarrow> m \<notin> fst ` set kvs"
  by (induction kvs) (auto simp: values_of_def)

lemma all_values_empty_iff:
  "all_values m rds = [] \<longleftrightarrow> m \<notin> (\<Union>item \<in> set rds. fst ` set (scores item))"
  by (simp add: all_values_def values_of_empty_iff)

lemma mean_scores_Inr:
  "\<forall>k \<in> fst ` set t. getd 0 n k \<noteq> 0 \<Longrightarrow> mean_scores fl t n acc = Inr (quotients fl n t acc)"
  by (induction fl t n acc rule: mean_scores.induct) (auto simp: quotients_def)

lemma quotients_Cons:
  "quotients fl n ((k, v) # t) acc =
   quotients fl n t (AList.update k (float_div fl v (getd 0 n k)) acc)"
  by (simp add: quotients_def)

lemma map_of_quotients:
  "distinct (map fst t) \<Longrightarrow>
   map_of (quotients fl n t acc) m =
     (case map_of t m of None \<Rightarrow> map_of acc m
      | Some tot \<Rightarrow> Some (float_div fl tot (getd 0 n m)))"
proof (induction t arbitrary: acc)
  case Nil
  then show ?case by (simp add: quotients_def)
next
  case (Cons kv t)
  obtain k v where kv: "kv = (k, v)" by (cases kv)
  have notin: "map_of t k = None" using Cons.prems kv by (simp add: map_of_eq_None_iff)
  show ?case
    using Cons.IH [of "AList.update k (float_div fl v (getd 0 n k)) acc"] Cons.prems notin
    by (auto simp: kv quotients_Cons update_conv' split: option.splits)
qed

lemma keys_quotients: "fst ` set (quotients fl n t acc) = fst ` set acc \<union> fst ` set t"
proof (induction t arbitrary: acc)
  case Nil
  then show ?case by (simp add: quotients_def)
next
  case (Cons kv t)
  obtain k v where kv: "kv = (k, v)" by (cases kv)
  show ?case using Cons.IH [of "AList.update k (float_div fl v (getd 0 n k)) acc"]
    by (auto simp: kv quotients_Cons keys_update)
qed

lemma aggregate_total:
  "\<exists>t n. sum_scores fl rds ([], []) = (t, n) \<and> aggregate fl rds = Inr (quotients fl n t []) \<and>
     distinct (map fst t) \<and>
     (\<forall>m. getd (float_zero fl) t m = float_sum fl (all_values m rds)) \<and>
     (\<forall>m. getd 0 n m = int (length (all_values m rds))) \<and>
     fst ` set t = (\<Union>item \<in> set rds. fst ` set (scores item))"
proof -
  obtain t n where tn: "sum_scores fl rds ([], []) = (t, n)"
    by (cases "sum_scores fl rds ([], [])")
  note p = sum_scores_props [OF tn]
  have keys: "fst ` set t = (\<Union>item \<in> set rds. fst ` set (scores item))"
    using p [of undefined] by simp
  have cnt: "getd 0 n m = int (length (all_values m rds))" for m
    using p [of m] by (simp add: getd_def)
  have tot: "getd (float_zero fl) t m = float_sum fl (all_values m rds)" for m
    using p [of m] by (simp add: getd_def float_sum_def)
  have nz: "\<forall>k \<in> fst ` set t. getd 0 n k \<noteq> 0"
  proof
    fix k assume "k \<in> fst ` set t"
    then have "all_values k rds \<noteq> []" using keys all_values_empty_iff [of k rds] by simp
    then show "getd 0 n k \<noteq> 0" using cnt [of k] by simp
  qed
  have "aggregate fl rds = Inr (quotients fl n t [])"
    using tn mean_scores_Inr [OF nz] by (simp add: aggregate_def)
  moreover have "distinct (map fst t)" using p [of undefined] by simp
  ultimately show ?thesis using tn tot cnt keys by blast
qed

lemma aggregate_mean:
  "\<exists>ov. aggregate fl rds = Inr ov \<and>
     (\<forall>m. map_of ov m =
        (if all_values m rds = [] then None else Some (float_mean fl (all_values m rds))))"
proof -
  obtain t n where tn: "aggregate fl rds = Inr (quotients fl n t [])"
    "distinct (map fst t)"
    "\<And>m. getd (float_zero fl) t m = float_sum fl (all_values m rds)"
    "\<And>m. getd 0 n m = int (length (all_values m rds))"
    "fst ` set t = (\<Union>item \<in> set rds. fst ` set (scores item))"
    using aggregate_total [of fl rds] by blast
  have "map_of (quotients fl n t []) m =
        (if all_values m rds = [] then None else Some (float_mean fl (all_values m rds)))" for m
  proof (cases "all_values m rds = []")
    case True
    then have "m \<notin> fst ` set t" using tn(5) all_values_empty_iff [of m rds] by simp
    then have "map_of t m = None" by (simp add: map_of_eq_None_iff)
    then show ?thesis using True map_of_quotients [OF tn(2), of fl n "[]" m] by simp
  next
    case False
    then have "m \<in> fst ` set t" using tn(5) all_values_empty_iff [of m rds] by simp
    then obtain tot where tot: "map_of t m = Some tot"
      by (cases "map_of t m") (auto simp: map_of_eq_None_iff)
    then have "tot = float_sum fl (all_values m rds)" using tn(3) [of m] by (simp add: getd_def)
    then show ?thesis
      using False tot tn(4) [of m] map_of_quotients [OF tn(2), of fl n "[]" m]
      by (simp add: float_mean_def)
  qed
  with tn(1) show ?thesis by blast
qed

lemma run_of_Inr: "\<exists>run. run_of fl rds = Inr run"
  using aggregate_mean [of fl rds] by (auto simp: run_of_def)

subsection \<open>The scoring stage as a function of its inputs\<close>

lemma score_run_fst:
  "fst (score_run fl self responses parallelism order w) =
     (if parallelism \<le> 0 then Inl (ValueError ''max_workers must be greater than 0'')
      else case gather (map (item_outcome self) responses) of
             Inl e \<Rightarrow> Inl e
           | Inr rds \<Rightarrow> run_of fl rds)"
proof (cases "parallelism \<le> 0")
  case True
  then show ?thesis by (simp add: score_run_def ThreadPoolExecutor_def)
next
  case False
  obtain res w' where em:
    "executor_map parallelism order (score_item_rundata self) responses w = (res, w')"
    by (cases "executor_map parallelism order (score_item_rundata self) responses w")
  have "fst (executor_map parallelism order (score_item_rundata self) responses w) =
        gather (map (item_outcome self) responses)"
    by (rule executor_map_score)
  with em have res: "res = gather (map (item_outcome self) responses)" by simp
  show ?thesis
    using False em res
    by (simp add: score_run_def ThreadPoolExecutor_def run_of_def split: sum.splits)
qed

lemma score_run_Inr_D:
  assumes "fst (score_run fl self responses parallelism order w) = Inr run"
  shows "0 < parallelism"
    and "map (item_outcome self) responses = map Inr (run_data run)"
    and "aggregate fl (run_data run) = Inr (overall_scores run)"
    and "run_id run = None"
proof -
  show p: "0 < parallelism" using assms score_run_fst [of fl self responses parallelism order w]
    by (auto split: if_splits)
  with assms obtain rds where rds: "gather (map (item_outcome self) responses) = Inr rds"
    "run_of fl rds = Inr run"
    using score_run_fst [of fl self responses parallelism order w]
    by (auto split: sum.splits)
  from rds(2) obtain ov where ov: "aggregate fl rds = Inr ov"
    "run = \<lparr>overall_scores = ov, run_data = rds, run_id = None\<rparr>"
    by (auto simp: run_of_def split: sum.splits)
  show "map (item_outcome self) responses = map Inr (run_data run)"
    using gather_Inr_D [OF rds(1)] ov(2) by simp
  show "aggregate fl (run_data run) = Inr (overall_scores run)" using ov by simp
  show "run_id run = None" using ov by simp
qed

lemma score_run_snd:
  "snd (score_run fl self responses parallelism order w) =
     (if parallelism \<le> 0 then w
      else snd (executor_map parallelism order (score_item_rundata self) responses w))"
  by (simp add: score_run_def ThreadPoolExecutor_def split: prod.splits sum.splits)

subsection \<open>The scores of one response\<close>

lemma scores_of_calls_props:
  "scores_of_calls calls d = Inr d' \<Longrightarrow>
     fst ` set d' = fst ` set d \<union> fst ` set calls \<and>
     (distinct (map fst d) \<longrightarrow> distinct (map fst d')) \<and>
     (\<forall>c \<in> set calls. \<exists>v. snd c = Inr v) \<and>
     map_of d' n = (case last_score n calls of None \<Rightarrow> map_of d n | Some v \<Rightarrow> Some v)"
proof (induction calls d rule: scores_of_calls.induct)
  case (1 d)
  then show ?case by (simp add: last_score_def)
next
  case (2 k e calls d)
  then show ?case by simp
next
  case (3 k v calls d)
  then have rest: "scores_of_calls calls (AList.update k v d) = Inr d'" by simp
  note ih = "3.IH" [OF rest]
  have keys: "fst ` set d' = fst ` set d \<union> fst ` set ((k, Inr v) # calls)"
    using ih by (auto simp: keys_update)
  have dist: "distinct (map fst d) \<longrightarrow> distinct (map fst d')"
    using ih by (simp add: distinct_update)
  have ok: "\<forall>c \<in> set ((k, Inr v) # calls). \<exists>v. snd c = Inr v" using ih by simp
  have look: "map_of d' n =
      (case last_score n ((k, Inr v) # calls) of None \<Rightarrow> map_of d n | Some v \<Rightarrow> Some v)"
  proof (cases "filter (\<lambda>c. fst c = n) calls")
    case Nil
    then have "last_score n calls = None" by (simp add: last_score_def)
    moreover have "last_score n ((k, Inr v) # calls) = (if k = n then Some v else None)"
      using Nil by (simp add: last_score_def)
    ultimately show ?thesis using ih by (simp add: update_conv')
  next
    case (Cons c cs)
    then have "last_score n ((k, Inr v) # calls) = last_score n calls"
      by (simp add: last_score_def)
    moreover have "\<exists>v. snd (last (c # cs)) = Inr v"
    proof -
      have "last (c # cs) \<in> set (filter (\<lambda>c. fst c = n) calls)"
        unfolding Cons by (rule last_in_set) simp
      then show ?thesis using ih by auto
    qed
    then have "\<exists>v. last_score n calls = Some v"
      using Cons by (auto simp: last_score_def)
    ultimately show ?thesis using ih by auto
  qed
  show ?case using keys dist ok look by blast
qed

lemma metric_calls_names:
  "\<forall>c \<in> set (metric_calls ms r s). \<exists>v. snd c = Inr v \<Longrightarrow>
   map fst (metric_calls ms r s) = map name ms"
proof (induction ms arbitrary: s)
  case Nil
  then show ?case by simp
next
  case (Cons metric ms)
  obtain res s' where call: "metric_score metric r s = (res, s')"
    by (cases "metric_score metric r s")
  show ?case
  proof (cases res)
    case (Inl e)
    with call Cons.prems show ?thesis by simp
  next
    case (Inr v)
    with call Cons.prems have "\<forall>c \<in> set (metric_calls ms r s'). \<exists>v. snd c = Inr v" by simp
    from Cons.IH [OF this] show ?thesis using call Inr by simp
  qed
qed

lemma scores_of_calls_Inl:
  "scores_of_calls calls d = Inl e \<Longrightarrow> \<exists>n. (n, Inl e) \<in> set calls"
  by (induction calls d rule: scores_of_calls.induct) auto

lemma item_outcome_Inr:
  assumes "item_outcome self r = Inr item"
  shows "fst ` set (scores item) = name ` set (metrics self)"
    and "distinct (map fst (scores item))"
    and "\<forall>c \<in> set (item_calls self r). \<exists>v. snd c = Inr v"
    and "map fst (item_calls self r) = map name (metrics self)"
    and "map_of (scores item) n = last_score n (item_calls self r)"
    and "reference_question item = question (benchmark_item r)"
    and "reference_answer item = answer (benchmark_item r)"
    and "answer_given item = llm_answer r"
    and "context_given item = llm_context_list r"
proof -
  from assms obtain d where d: "scores_of_calls (item_calls self r) [] = Inr d"
    and item: "item = rundata_of r d"
    by (auto simp: item_outcome_def outcome_from_def item_calls_def split: sum.splits)
  note p = scores_of_calls_props [OF d, of n]
  show ok: "\<forall>c \<in> set (item_calls self r). \<exists>v. snd c = Inr v" using p by simp
  show names: "map fst (item_calls self r) = map name (metrics self)"
    using ok unfolding item_calls_def by (rule metric_calls_names)
  have "fst ` set (item_calls self r) = set (map fst (item_calls self r))" by simp
  also have "\<dots> = name ` set (metrics self)" unfolding names by simp
  finally show "fst ` set (scores item) = name ` set (metrics self)"
    using p item by (simp add: rundata_of_def)
  show "distinct (map fst (scores item))" using p item by (simp add: rundata_of_def)
  show "map_of (scores item) n = last_score n (item_calls self r)"
    using p item by (simp add: rundata_of_def split: option.splits)
  show "reference_question item = question (benchmark_item r)"
    "reference_answer item = answer (benchmark_item r)"
    "answer_given item = llm_answer r"
    "context_given item = llm_context_list r"
    using item by (simp_all add: rundata_of_def)
qed

lemma item_outcome_Inl:
  "item_outcome self r = Inl e \<Longrightarrow> \<exists>n. (n, Inl e) \<in> set (item_calls self r)"
  by (auto simp: item_outcome_def outcome_from_def item_calls_def split: sum.splits
      dest: scores_of_calls_Inl)

lemma score_run_dict_scores:
  assumes "fst (score_run fl self responses parallelism order w) = Inr run"
  shows "dict_scores (run_data run)"
proof -
  note eq = score_run_Inr_D(2) [OF assms]
  show ?thesis unfolding dict_scores_def
  proof
    fix item assume "item \<in> set (run_data run)"
    then have "Inr item \<in> set (map (item_outcome self) responses)" unfolding eq by simp
    then obtain r where "item_outcome self r = Inr item" by auto
    then show "distinct (map fst (scores item))" by (rule item_outcome_Inr(2))
  qed
qed

subsection \<open>Means over dicts\<close>

lemma values_of_distinct:
  "distinct (map fst kvs) \<Longrightarrow>
   values_of m kvs = (case map_of kvs m of None \<Rightarrow> [] | Some v \<Rightarrow> [v])"
proof (induction kvs)
  case Nil
  then show ?case by (simp add: values_of_def)
next
  case (Cons kv kvs)
  obtain k v where kv: "kv = (k, v)" by (cases kv)
  show ?case
  proof (cases "k = m")
    case True
    then have "m \<notin> fst ` set kvs" using Cons.prems kv by auto
    then have "values_of m kvs = []" by (simp add: values_of_empty_iff)
    then show ?thesis using True kv by (simp add: values_of_def)
  next
    case False
    then show ?thesis using Cons kv by (simp add: values_of_def)
  qed
qed

lemma all_values_observed: "dict_scores rds \<Longrightarrow> all_values m rds = observed m rds"
proof (induction rds)
  case Nil
  then show ?case by (simp add: all_values_def observed_def List.map_filter_simps)
next
  case (Cons item rds)
  then have d: "distinct (map fst (scores item))" and rest: "dict_scores rds"
    by (simp_all add: dict_scores_def)
  have "all_values m (item # rds) = values_of m (scores item) @ all_values m rds"
    by (simp add: all_values_def)
  then show ?case using Cons.IH [OF rest] values_of_distinct [OF d, of m]
    by (simp add: observed_def List.map_filter_simps split: option.splits)
qed

lemma aggregate_reference:
  assumes "dict_scores rds"
  shows "\<exists>ov. aggregate fl rds = Inr ov \<and> (\<forall>m. map_of ov m = reference_overall_scores fl rds m)"
proof -
  from aggregate_mean [of fl rds] obtain ov where ov: "aggregate fl rds = Inr ov"
    "\<And>m. map_of ov m =
        (if all_values m rds = [] then None else Some (float_mean fl (all_values m rds)))"
    by blast
  have "map_of ov m = reference_overall_scores fl rds m" for m
    using ov(2) [of m] all_values_observed [OF assms, of m]
    by (simp add: reference_overall_scores_def)
  with ov(1) show ?thesis by blast
qed

lemma observed_length:
  "\<forall>item \<in> set rds. n \<in> fst ` set (scores item) \<Longrightarrow> length (observed n rds) = length rds"
proof (induction rds)
  case Nil
  show ?case by (simp add: observed_def List.map_filter_simps)
next
  case (Cons item rds)
  then have "n \<in> fst ` set (scores item)" by simp
  then obtain v where "map_of (scores item) n = Some v"
    by (cases "map_of (scores item) n") (auto simp: map_of_eq_None_iff)
  moreover have "length (observed n rds) = length rds" using Cons by simp
  ultimately show ?case by (simp add: observed_def List.map_filter_simps)
qed

subsection \<open>The sequential reference\<close>

lemma score_sequential_fst:
  "fst (score_sequential self responses w) = gather (map (item_outcome self) responses)"
proof (induction responses arbitrary: w)
  case Nil
  show ?case by simp
next
  case (Cons r rs)
  obtain res w' where step: "run_prog (score_item_rundata self r) w = (res, w')"
    by (cases "run_prog (score_item_rundata self r) w")
  then have res: "res = item_outcome self r"
    using run_score_item_rundata [of self r w] by simp
  obtain res2 w2 where rest: "score_sequential self rs w' = (res2, w2)"
    by (cases "score_sequential self rs w'")
  then have res2: "res2 = gather (map (item_outcome self) rs)"
    using Cons.IH [of w'] by simp
  show ?case
  proof (cases res)
    case (Inl e)
    then show ?thesis using step res by simp
  next
    case (Inr item)
    then show ?thesis using step res rest res2 by (simp split: sum.splits)
  qed
qed

subsection \<open>Totality and the events of a successful response\<close>

lemma scores_of_calls_total:
  "list_all (\<lambda>c. \<exists>v. snd c = Inr v) calls \<Longrightarrow> \<exists>d'. scores_of_calls calls d = Inr d'"
  by (induction calls d rule: scores_of_calls.induct) auto

lemma item_outcome_total:
  "list_all (\<lambda>c. \<exists>v. snd c = Inr v) (item_calls self r) \<Longrightarrow> \<exists>item. item_outcome self r = Inr item"
  using scores_of_calls_total [of "item_calls self r" "[]"]
  by (auto simp: item_outcome_def outcome_from_def item_calls_def)

lemma item_events_success:
  "item_outcome self r = Inr item \<Longrightarrow>
   item_events self r a =
     Constructed a (model_evaluator self) # map (\<lambda>m. Scored (name m) r a) (metrics self)"
proof -
  assume "item_outcome self r = Inr item"
  then have "map fst (item_calls self r) = map name (metrics self)"
    by (rule item_outcome_Inr(4))
  then have "map (\<lambda>c. Scored (fst c) r a) (item_calls self r) =
             map (\<lambda>m. Scored (name m) r a) (metrics self)"
    using map_map [of "\<lambda>n. Scored n r a" fst "item_calls self r"]
      map_map [of "\<lambda>n. Scored n r a" name "metrics self"]
    by (simp add: comp_def)
  then show ?thesis by (simp add: item_events_def)
qed

subsection \<open>Further facts used by the claims\<close>

lemma fold_worker_step_Nil: "fold (worker_step max_workers fn []) order ([], w) = ([], w)"
  by (induction order) (simp_all add: worker_step_def)

lemma executor_map_Nil: "executor_map max_workers order fn [] w = (Inr [], w)"
  by (simp add: executor_map_def pool_run_def fold_worker_step_Nil)

lemma observed_last_score:
  "map (item_outcome self) rs = map Inr rds \<Longrightarrow> n \<in> name ` set (metrics self) \<Longrightarrow>
   map Some (observed n rds) = map (\<lambda>r. last_score n (item_calls self r)) rs"
proof (induction rs arbitrary: rds)
  case Nil
  then show ?case by (simp add: observed_def List.map_filter_simps)
next
  case (Cons r rs)
  then obtain item rds' where rds: "rds = item # rds'" and out: "item_outcome self r = Inr item"
    and rest: "map (item_outcome self) rs = map Inr rds'"
    by (cases rds) auto
  have "n \<in> fst ` set (scores item)" using item_outcome_Inr(1) [OF out] Cons.prems(2) by simp
  then obtain v where v: "map_of (scores item) n = Some v"
    by (cases "map_of (scores item) n") (auto simp: map_of_eq_None_iff)
  have "last_score n (item_calls self r) = Some v"
    using item_outcome_Inr(5) [OF out, of n] v by simp
  moreover have "observed n rds = v # observed n rds'"
    using v by (simp add: rds observed_def List.map_filter_simps)
  ultimately show ?case using Cons.IH [OF rest Cons.prems(2)] by simp
qed

lemma float_sum_real:
  "foldl (+) (a :: real) vs = a + sum_list vs"
  by (induction vs arbitrary: a) simp_all

lemma aggregate_keys:
  "\<exists>ov. aggregate fl rds = Inr ov \<and> fst ` set ov = (\<Union>item \<in> set rds. fst ` set (scores item))"
proof -
  from aggregate_total [of fl rds] obtain t n where tn:
    "aggregate fl rds = Inr (quotients fl n t [])"
    "fst ` set t = (\<Union>item \<in> set rds. fst ` set (scores item))"
    by blast
  then show ?thesis by (simp add: keys_quotients)
qed

lemmas run_defs =
  score_def score_responses_def benchmark_items_def create_response_def
  score_run_def ThreadPoolExecutor_def executor_map_def pool_run_def worker_step_def
  task_step_def may_start_def is_queued_def is_running_def await_def shutdown_def
  run_Act score_item_rundata_def
  new_OpenAIService_def call_score_def aggregate_def getd_def upt_rec

lemmas ex_defs =
  ex_scorer_def ex_response_def ex_item_def ex_rundata_def ex_world_def ex_calls_def
  metric_A_def metric_B_def metric_A_again_def metric_raising_def metric_wide_def
  ex_callback_def ex_callback_raising_def

lemmas mean_defs =
  reference_overall_scores_def observed_def float_mean_def float_sum_def
  List.map_filter_simps

subsection \<open>The generation stage as a whole\<close>

lemma score_callback_world:
  "fst (snd (score fl self benchmark callback callback_parallelism scoring_parallelism
               callback_order scoring_order c w)) =
   snd (score_responses benchmark callback callback_parallelism callback_order c)"
  by (simp add: score_def split: prod.splits sum.splits)

lemma score_Inl:
  "fst (score_responses benchmark callback callback_parallelism callback_order c) = Inl e \<Longrightarrow>
   fst (score fl self benchmark callback callback_parallelism scoring_parallelism
          callback_order scoring_order c w) = Inl e \<and>
   snd (snd (score fl self benchmark callback callback_parallelism scoring_parallelism
          callback_order scoring_order c w)) = w"
  by (cases "score_responses benchmark callback callback_parallelism callback_order c")
    (simp add: score_def)

lemma score_responses_calls:
  assumes c': "c' = snd (score_responses benchmark callback callback_parallelism order c)"
    and res: "res = fst (score_responses benchmark callback callback_parallelism order c)"
    and pos: "0 < callback_parallelism"
  shows "\<exists>R. length R = length (benchmark_items benchmark) \<and>
           (\<forall>i < length (benchmark_items benchmark). \<forall>x. R ! i = Some x \<longrightarrow>
              (\<exists>s. fst (callback (question (benchmark_items benchmark ! i)) s) = x)) \<and>
           callback_calls c' = callback_calls c @ new_calls c c' \<and>
           mset (new_calls c c') = mset (logged (benchmark_items benchmark) R) \<and>
           (case res of
              Inr ys \<Rightarrow> length ys = length (benchmark_items benchmark) \<and>
                (\<forall>i < length (benchmark_items benchmark).
                   R ! i = Some (Inr (llm_answer (ys ! i), llm_context_list (ys ! i))) \<and>
                   benchmark_item (ys ! i) = benchmark_items benchmark ! i)
            | Inl e \<Rightarrow> \<exists>k < length (benchmark_items benchmark). R ! k = Some (Inl e) \<and>
                (\<forall>j < k. \<exists>v. R ! j = Some (Inr v)))"
proof (rule executor_map_calls)
  show "c' = snd (executor_map callback_parallelism order (create_response callback)
                    (benchmark_items benchmark) c)"
    using c' pos by (simp add: score_responses_def ThreadPoolExecutor_def)
  show "res = fst (executor_map callback_parallelism order (create_response callback)
                    (benchmark_items benchmark) c)"
    using res pos by (simp add: score_responses_def ThreadPoolExecutor_def)
qed

lemma score_responses_no_pool:
  "callback_parallelism \<le> 0 \<Longrightarrow>
   score_responses benchmark callback callback_parallelism order c =
     (Inl (ValueError ''max_workers must be greater than 0''), c)"
  by (simp add: score_responses_def ThreadPoolExecutor_def)

lemma serves_unchanged: "serves self responses w w (replicate (length responses) None)"
  by (simp add: serves_def new_trace_def)

lemma serves_executor_map:
  assumes w': "w' = snd (executor_map max_workers order (score_item_rundata self) rs w)"
  shows "\<exists>owner. serves self rs w w' owner \<and>
           ((\<exists>ys. fst (executor_map max_workers order (score_item_rundata self) rs w) = Inr ys) \<longrightarrow>
              (\<forall>i < length rs. \<exists>a. owner ! i = Some a))"
proof -
  from executor_map_score_world [OF w']
  obtain G where we: "world_ext w w'" and ow: "owners_ok (length rs) w w' G"
    and ev: "\<forall>i < length rs. \<forall>a. G ! i = Some a \<longrightarrow>
              events_at a (new_trace w w') = item_events self (rs ! i) a"
    and ok: "\<forall>i < length rs. G ! i = None \<longrightarrow>
              (\<forall>ys. fst (executor_map max_workers order (score_item_rundata self) rs w) \<noteq>
                 Inr ys)"
    by blast
  have "serves self rs w w' G"
    unfolding serves_def
  proof (intro conjI allI impI ballI)
    show "length G = length rs" using ow by (simp add: owners_ok_def)
    show "trace w' = trace w @ new_trace w w'" using we by (rule world_ext_trace)
    show "heap w' ! b = heap w ! b" if "b < length (heap w)" for b
      using we that by (simp add: world_ext_def)
    show "length (heap w) \<le> event_address ev'" if "ev' \<in> set (new_trace w w')" for ev'
      using we that by (simp add: world_ext_def)
    show "event_address ev' < length (heap w')" if "ev' \<in> set (new_trace w w')" for ev'
      using we that by (simp add: world_ext_def)
    show "\<exists>i < length rs. G ! i = Some a" if "length (heap w) \<le> a \<and> a < length (heap w')" for a
      using ow that by (simp add: owners_ok_def)
    show "length (heap w) \<le> a" if "i < length rs" "G ! i = Some a" for i a
      using ow that by (simp add: owners_ok_def)
    show "a < length (heap w')" if "i < length rs" "G ! i = Some a" for i a
      using ow that by (simp add: owners_ok_def)
    show "events_at a (new_trace w w') = item_events self (rs ! i) a"
      if "i < length rs" "G ! i = Some a" for i a
      using ev that by blast
    show "j = i" if "i < length rs" "G ! i = Some a" "j < length rs" "G ! j = Some a" for i j a
      using ow that by (auto simp: owners_ok_def)
  qed
  moreover have "\<forall>i < length rs. \<exists>a. G ! i = Some a"
    if "\<exists>ys. fst (executor_map max_workers order (score_item_rundata self) rs w) = Inr ys"
  proof (intro allI impI)
    fix i assume "i < length rs"
    with ok that have "G ! i \<noteq> None" by blast
    then show "\<exists>a. G ! i = Some a" by (cases "G ! i") simp_all
  qed
  ultimately show ?thesis by blast
qed

section \<open>The claims\<close>

text \<open>
  C1, as the specification states it, does not hold of the program: the sum and the
  quotient are those of floats. With the scores \<^verbatim>\<open>1e16\<close>, \<^verbatim>\<open>1.0\<close>, \<^verbatim>\<open>-1e16\<close> and \<^verbatim>\<open>3.0\<close> the
  running sum loses the \<^verbatim>\<open>1.0\<close> and \<^verbatim>\<open>overall_scores\<close> is \<^verbatim>\<open>0.75\<close>, while the arithmetic mean of
  the four values is \<open>1\<close>, which is a double.
\<close>

theorem overall_scores_not_arithmetic_mean:
  "fst (score_run binary64 (ex_scorer [metric_wide])
         [ex_response ''big'', ex_response ''one'', ex_response ''neg'', ex_response ''three'']
         1 [] ex_world) =
     Inr \<lparr>overall_scores = [(''W'', Finite (3 / 4))],
          run_data = [ex_rundata [(''W'', Finite 10000000000000000)] ''big'',
                      ex_rundata [(''W'', Finite 1)] ''one'',
                      ex_rundata [(''W'', Finite (- 10000000000000000))] ''neg'',
                      ex_rundata [(''W'', Finite 3)] ''three''],
          run_id = None\<rparr> \<and>
   arithmetic_mean [10000000000000000, 1, - 10000000000000000, 3] = 1 \<and>
   round_double 1 = Finite 1 \<and>
   Finite (3 / 4) \<noteq> Finite 1"
proof (intro conjI)
  show "fst (score_run binary64 (ex_scorer [metric_wide])
         [ex_response ''big'', ex_response ''one'', ex_response ''neg'', ex_response ''three'']
         1 [] ex_world) =
     Inr \<lparr>overall_scores = [(''W'', Finite (3 / 4))],
          run_data = [ex_rundata [(''W'', Finite 10000000000000000)] ''big'',
                      ex_rundata [(''W'', Finite 1)] ''one'',
                      ex_rundata [(''W'', Finite (- 10000000000000000))] ''neg'',
                      ex_rundata [(''W'', Finite 3)] ''three''],
          run_id = None\<rparr>"
    by (simp add: run_defs ex_defs double_defs)
  show "arithmetic_mean [10000000000000000, 1, - 10000000000000000, 3] = 1"
    by (simp add: arithmetic_mean_def)
  show "round_double 1 = Finite 1" by (simp add: double_defs)
  show "Finite (3 / 4) \<noteq> Finite 1" by simp
qed

text \<open>
  C1, amended. In the Run returned by \<^verbatim>\<open>score_run\<close>, \<^verbatim>\<open>overall_scores[m]\<close> is the float
  quotient of the float sum of the values \<^verbatim>\<open>scores[m]\<close> of exactly those RunData whose
  \<^verbatim>\<open>scores\<close> contains \<open>m\<close>, added to \<^verbatim>\<open>0.0\<close> one after the other in the order of \<^verbatim>\<open>run_data\<close>, by
  their number, and a name no RunData contains is not a key. The aggregation keeps a sum
  and a count per name: on any list of RunData, also one where some RunData lack some
  metric, it returns that quotient. It is the arithmetic mean where the arithmetic is
  exact.
\<close>

theorem overall_scores_is_float_mean:
  "(fst (score_run fl self responses parallelism order w) = Inr run \<longrightarrow>
      map_of (overall_scores run) m = reference_overall_scores fl (run_data run) m) \<and>
   (dict_scores rds \<longrightarrow>
      (\<exists>ov. aggregate fl rds = Inr ov \<and> map_of ov m = reference_overall_scores fl rds m)) \<and>
   float_mean \<lparr>float_zero = 0, float_add = (+), float_div = (\<lambda>x n. x / real_of_int n)\<rparr> vs =
     arithmetic_mean vs"
proof (intro conjI impI)
  assume run: "fst (score_run fl self responses parallelism order w) = Inr run"
  have "dict_scores (run_data run)" using run by (rule score_run_dict_scores)
  from aggregate_reference [OF this, of fl] score_run_Inr_D(3) [OF run]
  show "map_of (overall_scores run) m = reference_overall_scores fl (run_data run) m" by auto
next
  assume "dict_scores rds"
  from aggregate_reference [OF this]
  show "\<exists>ov. aggregate fl rds = Inr ov \<and> map_of ov m = reference_overall_scores fl rds m"
    by blast
next
  show "float_mean \<lparr>float_zero = 0, float_add = (+), float_div = (\<lambda>x n. x / real_of_int n)\<rparr> vs =
     arithmetic_mean vs"
    by (simp add: float_mean_def float_sum_def arithmetic_mean_def float_sum_real)
qed

theorem overall_scores_is_float_mean_witness:
  "fst (score_run binary64 (ex_scorer [metric_A, metric_B])
         [ex_response ''4'', ex_response ''5''] 2 [0, 1, 0, 1, 1, 0] ex_world) =
     Inr \<lparr>overall_scores = [(''A'', Finite (3 / 4)), (''B'', Finite 1)],
          run_data = [ex_rundata [(''A'', Finite (1 / 2)), (''B'', Finite 1)] ''4'',
                      ex_rundata [(''A'', Finite 1), (''B'', Finite 1)] ''5''],
          run_id = None\<rparr> \<and>
   reference_overall_scores binary64
     [ex_rundata [(''A'', Finite (1 / 2)), (''B'', Finite 1)] ''4'',
      ex_rundata [(''A'', Finite 1), (''B'', Finite 1)] ''5'']
     ''A'' = Some (Finite (3 / 4)) \<and>
   dict_scores [ex_rundata [(''B'', Finite 1)] ''3'',
                ex_rundata [(''A'', Finite (1 / 2)), (''B'', Finite 1)] ''4'',
                ex_rundata [(''A'', Finite 1)] ''5''] \<and>
   (\<exists>ov. aggregate binary64
            [ex_rundata [(''B'', Finite 1)] ''3'',
             ex_rundata [(''A'', Finite (1 / 2)), (''B'', Finite 1)] ''4'',
             ex_rundata [(''A'', Finite 1)] ''5''] = Inr ov \<and>
         map_of ov ''A'' = Some (Finite (3 / 4)))"
proof -
  let ?rds = "[ex_rundata [(''B'', Finite 1)] ''3'',
               ex_rundata [(''A'', Finite (1 / 2)), (''B'', Finite 1)] ''4'',
               ex_rundata [(''A'', Finite 1)] ''5'']"
  let ?run = "\<lparr>overall_scores = [(''A'', Finite (3 / 4)), (''B'', Finite 1)],
          run_data = [ex_rundata [(''A'', Finite (1 / 2)), (''B'', Finite 1)] ''4'',
                      ex_rundata [(''A'', Finite 1), (''B'', Finite 1)] ''5''],
          run_id = None\<rparr>"
  have h1: "fst (score_run binary64 (ex_scorer [metric_A, metric_B])
                  [ex_response ''4'', ex_response ''5''] 2 [0, 1, 0, 1, 1, 0] ex_world) = Inr ?run"
    by (simp add: run_defs ex_defs double_defs)
  have h2: "dict_scores ?rds" by (simp add: dict_scores_def ex_defs)
  have r1: "reference_overall_scores binary64 (run_data ?run) ''A'' = Some (Finite (3 / 4))"
    by (simp add: mean_defs ex_defs double_defs)
  have r2: "reference_overall_scores binary64 ?rds ''A'' = Some (Finite (3 / 4))"
    by (simp add: mean_defs ex_defs double_defs)
  note inst = overall_scores_is_float_mean [of binary64 "ex_scorer [metric_A, metric_B]"
        "[ex_response ''4'', ex_response ''5'']" 2 "[0, 1, 0, 1, 1, 0]" ex_world ?run "''A''" ?rds]
  from inst h1 have a: "map_of (overall_scores ?run) ''A'' =
                       reference_overall_scores binary64 (run_data ?run) ''A''" by blast
  from inst h2 obtain ov where ov: "aggregate binary64 ?rds = Inr ov"
    "map_of ov ''A'' = reference_overall_scores binary64 ?rds ''A''" by blast
  from ov r2 have b: "\<exists>ov. aggregate binary64 ?rds = Inr ov \<and> map_of ov ''A'' = Some (Finite (3 / 4))"
    by auto
  from r1 have r1': "reference_overall_scores binary64
     [ex_rundata [(''A'', Finite (1 / 2)), (''B'', Finite 1)] ''4'',
      ex_rundata [(''A'', Finite 1), (''B'', Finite 1)] ''5'']
     ''A'' = Some (Finite (3 / 4))" by simp
  show ?thesis using h1 r1' h2 b by blast
qed

text \<open>
  C2. The list of LLMResponse that the generation stage of \<^verbatim>\<open>score\<close> produces has one
  entry per BenchmarkItem, in the order of the items: entry \<open>i\<close> carries item \<open>i\<close> and an
  answer and context that the callback returned for the question of item \<open>i\<close>, whatever
  the callback parallelism and the order in which the calls are made and complete.
\<close>

theorem responses_in_input_order:
  assumes "fst (score_responses benchmark callback callback_parallelism order c) = Inr responses"
  shows "length responses = length (benchmark_items benchmark) \<and>
         (\<forall>i < length responses.
            benchmark_item (responses ! i) = benchmark_items benchmark ! i \<and>
            (\<exists>c0. fst (callback (question (benchmark_items benchmark ! i)) c0) =
                     Inr (llm_answer (responses ! i), llm_context_list (responses ! i))))"
proof -
  have pos: "0 < callback_parallelism"
    using assms score_responses_no_pool [of callback_parallelism benchmark callback order c]
    by (cases "callback_parallelism \<le> 0") simp_all
  from score_responses_calls [OF refl refl pos, of benchmark callback order c]
  obtain R where R1:
    "\<forall>i < length (benchmark_items benchmark). \<forall>x. R ! i = Some x \<longrightarrow>
       (\<exists>s. fst (callback (question (benchmark_items benchmark ! i)) s) = x)"
    and R4: "case fst (score_responses benchmark callback callback_parallelism order c) of
              Inr ys \<Rightarrow> length ys = length (benchmark_items benchmark) \<and>
                (\<forall>i < length (benchmark_items benchmark).
                   R ! i = Some (Inr (llm_answer (ys ! i), llm_context_list (ys ! i))) \<and>
                   benchmark_item (ys ! i) = benchmark_items benchmark ! i)
            | Inl e \<Rightarrow> \<exists>k < length (benchmark_items benchmark). R ! k = Some (Inl e) \<and>
                (\<forall>j < k. \<exists>v. R ! j = Some (Inr v))"
    by blast
  have R: "\<exists>s. fst (callback (question (benchmark_items benchmark ! i)) s) = x"
    if "i < length (benchmark_items benchmark)" "R ! i = Some x" for i x
    using R1 that by blast
  have R2: "length responses = length (benchmark_items benchmark)"
    and R3: "\<And>i. i < length (benchmark_items benchmark) \<Longrightarrow>
       R ! i = Some (Inr (llm_answer (responses ! i), llm_context_list (responses ! i))) \<and>
       benchmark_item (responses ! i) = benchmark_items benchmark ! i"
    using R4 unfolding assms by simp_all
  have "benchmark_item (responses ! i) = benchmark_items benchmark ! i \<and>
        (\<exists>c0. fst (callback (question (benchmark_items benchmark ! i)) c0) =
                 Inr (llm_answer (responses ! i), llm_context_list (responses ! i)))"
    if "i < length responses" for i
  proof -
    have i: "i < length (benchmark_items benchmark)" using that R2 by simp
    from R3 [OF i] R [OF i] show ?thesis by blast
  qed
  with R2 show ?thesis by blast
qed

theorem responses_in_input_order_witness:
  "fst (score_responses (Of_List [ex_item ''a'', ex_item ''b'', ex_item ''c'']) ex_callback 2
         [0, 1, 1, 0, 2] ex_calls) =
     Inr [\<lparr>llm_answer = ''a'', llm_context_list = [''math context''],
            benchmark_item = ex_item ''a''\<rparr>,
          \<lparr>llm_answer = ''b'', llm_context_list = [''math context''],
            benchmark_item = ex_item ''b''\<rparr>,
          \<lparr>llm_answer = ''c'', llm_context_list = [''math context''],
            benchmark_item = ex_item ''c''\<rparr>] \<and>
   callback_calls (snd (score_responses (Of_List [ex_item ''a'', ex_item ''b'', ex_item ''c''])
                          ex_callback 2 [0, 1, 1, 0, 2] ex_calls)) =
     [(''b'', Inr (''b'', [''math context''])), (''a'', Inr (''a'', [''math context''])),
      (''c'', Inr (''c'', [''math context'']))] \<and>
   benchmark_items (Of_List [ex_item ''a'', ex_item ''b'', ex_item ''c'']) ! 2 = ex_item ''c'' \<and>
   (\<exists>c0. fst (ex_callback (question (ex_item ''c'')) c0) = Inr (''c'', [''math context'']))"
proof -
  let ?rs = "[\<lparr>llm_answer = ''a'', llm_context_list = [''math context''],
            benchmark_item = ex_item ''a''\<rparr>,
          \<lparr>llm_answer = ''b'', llm_context_list = [''math context''],
            benchmark_item = ex_item ''b''\<rparr>,
          \<lparr>llm_answer = ''c'', llm_context_list = [''math context''],
            benchmark_item = ex_item ''c''\<rparr>]"
  have h: "fst (score_responses (Of_List [ex_item ''a'', ex_item ''b'', ex_item ''c''])
                 ex_callback 2 [0, 1, 1, 0, 2] ex_calls) = Inr ?rs"
    by (simp add: run_defs ex_defs)
  have l: "callback_calls (snd (score_responses (Of_List [ex_item ''a'', ex_item ''b'', ex_item ''c''])
                          ex_callback 2 [0, 1, 1, 0, 2] ex_calls)) =
     [(''b'', Inr (''b'', [''math context''])), (''a'', Inr (''a'', [''math context''])),
      (''c'', Inr (''c'', [''math context'']))]"
    by (simp add: run_defs ex_defs)
  from responses_in_input_order [OF h]
  have all: "\<forall>i < length ?rs.
            benchmark_item (?rs ! i) =
              benchmark_items (Of_List [ex_item ''a'', ex_item ''b'', ex_item ''c'']) ! i \<and>
            (\<exists>c0. fst (ex_callback (question
                  (benchmark_items (Of_List [ex_item ''a'', ex_item ''b'', ex_item ''c'']) ! i)) c0) =
                     Inr (llm_answer (?rs ! i), llm_context_list (?rs ! i)))"
    by blast
  have two: "2 < length ?rs" by simp
  from all [rule_format, OF two]
  have "benchmark_items (Of_List [ex_item ''a'', ex_item ''b'', ex_item ''c'']) ! 2 = ex_item ''c''"
    and "\<exists>c0. fst (ex_callback (question (ex_item ''c'')) c0) = Inr (''c'', [''math context''])"
    by (simp_all add: benchmark_items_def)
  with h l show ?thesis by blast
qed

text \<open>
  C3. Scoring one response either returns one RunData, and then every configured metric
  was called and returned a score and the keys of \<^verbatim>\<open>scores\<close> are exactly the names of the
  configured metrics, or it raises the exception of a metric call. Nothing isolates a
  failing metric: when scoring any one of the responses raises, \<^verbatim>\<open>score_run\<close> raises and
  returns no Run, under every schedule of the pool.
\<close>

theorem scoring_one_response_is_atomic:
  "(case fst (run_prog (score_item_rundata self response) w) of
      Inr item \<Rightarrow>
        fst ` set (scores item) = name ` set (metrics self) \<and>
        map fst (item_calls self response) = map name (metrics self) \<and>
        list_all (\<lambda>c. \<exists>v. snd c = Inr v) (item_calls self response)
    | Inl e \<Rightarrow>
        (\<exists>n. (n, Inl e) \<in> set (item_calls self response)) \<and>
        (response \<in> set responses \<longrightarrow>
           (\<exists>e'. fst (score_run fl self responses parallelism order w') = Inl e')))"
proof (cases "item_outcome self response")
  case (Inr item)
  have "list_all (\<lambda>c. \<exists>v. snd c = Inr v) (item_calls self response)"
    using item_outcome_Inr(3) [OF Inr] by (simp add: list_all_iff)
  then show ?thesis
    using Inr item_outcome_Inr(1,4) [OF Inr] by (simp add: run_score_item_rundata)
next
  case (Inl e)
  have abort: "\<exists>e'. fst (score_run fl self responses parallelism order w') = Inl e'"
    if "response \<in> set responses"
  proof (cases "gather (map (item_outcome self) responses)")
    case (Inl e')
    then show ?thesis by (simp add: score_run_fst)
  next
    case (Inr rds)
    then have "map (item_outcome self) responses = map Inr rds" by (rule gather_Inr_D)
    moreover have "Inl e \<in> set (map (item_outcome self) responses)"
      using that Inl by force
    ultimately show ?thesis by auto
  qed
  show ?thesis
    using Inl item_outcome_Inl [OF Inl] abort by (simp add: run_score_item_rundata)
qed

theorem scoring_one_response_is_atomic_witness:
  "fst (run_prog (score_item_rundata (ex_scorer [metric_A, metric_raising]) (ex_response ''4''))
         ex_world) =
     Inr (ex_rundata [(''A'', Finite (1 / 2)), (''R'', Finite 1)] ''4'') \<and>
   fst ` set (scores (ex_rundata [(''A'', Finite (1 / 2)), (''R'', Finite 1)] ''4'')) =
     name ` set (metrics (ex_scorer [metric_A, metric_raising])) \<and>
   fst (run_prog (score_item_rundata (ex_scorer [metric_A, metric_raising]) (ex_response ''boom''))
         ex_world) = Inl (Exception ''judge failed'') \<and>
   ex_response ''boom'' \<in> set [ex_response ''4'', ex_response ''boom'', ex_response ''5''] \<and>
   (\<exists>e'. fst (score_run binary64 (ex_scorer [metric_A, metric_raising])
                 [ex_response ''4'', ex_response ''boom'', ex_response ''5''] 2 [0, 1, 1, 0]
                 ex_world) =
           Inl e')"
proof -
  let ?self = "ex_scorer [metric_A, metric_raising]"
  let ?rs = "[ex_response ''4'', ex_response ''boom'', ex_response ''5'']"
  have ok: "fst (run_prog (score_item_rundata ?self (ex_response ''4'')) ex_world) =
              Inr (ex_rundata [(''A'', Finite (1 / 2)), (''R'', Finite 1)] ''4'')"
    by (simp add: run_defs ex_defs)
  have bad: "fst (run_prog (score_item_rundata ?self (ex_response ''boom'')) ex_world) =
               Inl (Exception ''judge failed'')"
    by (simp add: run_defs ex_defs)
  have mem: "ex_response ''boom'' \<in> set ?rs" by simp
  from scoring_one_response_is_atomic [where self = ?self and response = "ex_response ''4''"
      and w = ex_world and responses = ?rs and parallelism = 2 and order = "[0, 1, 1, 0]"
      and w' = ex_world and fl = binary64] ok
  have a: "fst ` set (scores (ex_rundata [(''A'', Finite (1 / 2)), (''R'', Finite 1)] ''4'')) =
           name ` set (metrics ?self)"
    by simp
  from scoring_one_response_is_atomic [where self = ?self and response = "ex_response ''boom''"
      and w = ex_world and responses = ?rs and parallelism = 2 and order = "[0, 1, 1, 0]"
      and w' = ex_world and fl = binary64] bad mem
  have b: "\<exists>e'. fst (score_run binary64 ?self ?rs 2 [0, 1, 1, 0] ex_world) = Inl e'"
    by simp
  show ?thesis using ok a bad mem b by blast
qed

text \<open>
  C4. If a call of the callback made by \<^verbatim>\<open>score\<close> raises, \<^verbatim>\<open>score\<close> returns no Run: it raises
  the exception of such a call, that of the first item in the order of the benchmark whose
  call raised, the items before it having been answered, and the scoring stage is not
  entered. The callback is called at most once for an item: a call that raised is not
  made again. In terms of the callback alone: if it raises on item \<open>i\<close> whatever its state,
  \<^verbatim>\<open>score\<close> raises; with a pool that can be built, the exception is one the callback raised
  on that item or an earlier one, and it is the exception of item \<open>i\<close> when the callback
  raises on no earlier item.
\<close>

theorem callback_failure_aborts_score:
  "((q, Inl e) \<in> set (new_calls c (fst (snd (score fl self benchmark callback
        callback_parallelism scoring_parallelism callback_order scoring_order c w)))) \<longrightarrow>
      (\<exists>k e'. k < length (benchmark_items benchmark) \<and>
         fst (score fl self benchmark callback callback_parallelism scoring_parallelism
                callback_order scoring_order c w) = Inl e' \<and>
         (question (benchmark_items benchmark ! k), Inl e') \<in>
           set (new_calls c (fst (snd (score fl self benchmark callback
                  callback_parallelism scoring_parallelism callback_order scoring_order c w)))) \<and>
         (\<forall>j < k. \<exists>v. (question (benchmark_items benchmark ! j), Inr v) \<in>
           set (new_calls c (fst (snd (score fl self benchmark callback
                  callback_parallelism scoring_parallelism callback_order scoring_order c w))))) \<and>
         snd (snd (score fl self benchmark callback callback_parallelism scoring_parallelism
                callback_order scoring_order c w)) = w)) \<and>
   mset (map fst (new_calls c (fst (snd (score fl self benchmark callback
        callback_parallelism scoring_parallelism callback_order scoring_order c w)))))
     \<subseteq># mset (map question (benchmark_items benchmark)) \<and>
   (i < length (benchmark_items benchmark) \<and>
    (\<forall>c0. fst (callback (question (benchmark_items benchmark ! i)) c0) = Inl e) \<longrightarrow>
      (\<exists>e'. fst (score fl self benchmark callback callback_parallelism scoring_parallelism
                    callback_order scoring_order c w) = Inl e' \<and>
              snd (snd (score fl self benchmark callback callback_parallelism scoring_parallelism
                    callback_order scoring_order c w)) = w \<and>
              (0 < callback_parallelism \<longrightarrow>
                 (\<exists>j \<le> i. \<exists>c0. fst (callback (question (benchmark_items benchmark ! j)) c0) =
                    Inl e') \<and>
                 ((\<forall>j < i. \<forall>c0. \<exists>v. fst (callback (question (benchmark_items benchmark ! j)) c0) =
                    Inr v) \<longrightarrow> e' = e))))"
proof -
  let ?items = "benchmark_items benchmark"
  let ?sr = "score_responses benchmark callback callback_parallelism callback_order c"
  let ?score = "score fl self benchmark callback callback_parallelism scoring_parallelism
                  callback_order scoring_order c w"
  have cw: "fst (snd ?score) = snd ?sr" by (rule score_callback_world)
  show ?thesis
  proof (cases "0 < callback_parallelism")
    case False
    then have sr: "?sr = (Inl (ValueError ''max_workers must be greater than 0''), c)"
      by (simp add: score_responses_no_pool)
    then have "fst ?sr = Inl (ValueError ''max_workers must be greater than 0'')" by simp
    from score_Inl [OF this, of fl self scoring_parallelism scoring_order w]
    have r: "fst ?score = Inl (ValueError ''max_workers must be greater than 0'')"
      "snd (snd ?score) = w" by simp_all
    have n: "new_calls c (fst (snd ?score)) = []" using sr by (simp add: cw new_calls_def)
    show ?thesis using r False by (simp add: n)
  next
    case True
    from score_responses_calls [OF refl refl True, of benchmark callback callback_order c]
    obtain R where R: "length R = length ?items"
      "\<And>i x. i < length ?items \<Longrightarrow> R ! i = Some x \<Longrightarrow>
         \<exists>s. fst (callback (question (?items ! i)) s) = x"
      "mset (new_calls c (snd ?sr)) = mset (logged ?items R)"
      "case fst ?sr of
          Inr ys \<Rightarrow> length ys = length ?items \<and>
            (\<forall>i < length ?items.
               R ! i = Some (Inr (llm_answer (ys ! i), llm_context_list (ys ! i))) \<and>
               benchmark_item (ys ! i) = ?items ! i)
        | Inl e \<Rightarrow> \<exists>k < length ?items. R ! k = Some (Inl e) \<and>
            (\<forall>j < k. \<exists>v. R ! j = Some (Inr v))"
      by blast
    have set_eq: "set (new_calls c (fst (snd ?score))) = set (logged ?items R)"
      using mset_eq_setD [OF R(3)] by (simp add: cw)
    have once: "mset (map fst (new_calls c (fst (snd ?score)))) \<subseteq># mset (map question ?items)"
    proof -
      have "mset (map fst (new_calls c (snd ?sr))) = mset (map fst (logged ?items R))"
        using R(3) by (metis mset_map)
      then show ?thesis using logged_questions [of ?items R] by (simp add: cw)
    qed
    have failing: "\<exists>k e'. k < length ?items \<and> fst ?score = Inl e' \<and> snd (snd ?score) = w \<and>
        R ! k = Some (Inl e') \<and> (\<forall>j < k. \<exists>v. R ! j = Some (Inr v))"
      if "\<exists>i < length ?items. \<exists>e0. R ! i = Some (Inl e0)"
    proof (cases "fst ?sr")
      case (Inr ys)
      with R(4) that show ?thesis by auto
    next
      case (Inl e')
      with R(4) obtain k where k: "k < length ?items" "R ! k = Some (Inl e')"
        "\<forall>j < k. \<exists>v. R ! j = Some (Inr v)" by auto
      from score_Inl [OF Inl, of fl self scoring_parallelism scoring_order w] k
      show ?thesis by blast
    qed
    have partA: "\<exists>k e'. k < length ?items \<and> fst ?score = Inl e' \<and>
         (question (?items ! k), Inl e') \<in> set (new_calls c (fst (snd ?score))) \<and>
         (\<forall>j < k. \<exists>v. (question (?items ! j), Inr v) \<in> set (new_calls c (fst (snd ?score)))) \<and>
         snd (snd ?score) = w"
      if "(q, Inl e) \<in> set (new_calls c (fst (snd ?score)))"
    proof -
      from that have "(q, Inl e) \<in> set (logged ?items R)" by (simp add: set_eq)
      from logged_memD [OF this] have "\<exists>i < length ?items. \<exists>e0. R ! i = Some (Inl e0)" by blast
      from failing [OF this] obtain k e' where k: "k < length ?items" "fst ?score = Inl e'"
        "snd (snd ?score) = w" "R ! k = Some (Inl e')" "\<forall>j < k. \<exists>v. R ! j = Some (Inr v)"
        by blast
      have a: "(question (?items ! k), Inl e') \<in> set (new_calls c (fst (snd ?score)))"
        unfolding set_eq using k(1) R(1) k(4) by (rule logged_mem)
      have b: "\<exists>v. (question (?items ! j), Inr v) \<in> set (new_calls c (fst (snd ?score)))"
        if j: "j < k" for j
      proof -
        from k(5) j obtain v where v: "R ! j = Some (Inr v)" by blast
        have "j < length ?items" using j k(1) by simp
        from logged_mem [OF this R(1) v] show ?thesis unfolding set_eq by blast
      qed
      from k(1,2,3) a b show ?thesis by blast
    qed
    have partB: "\<exists>e'. fst ?score = Inl e' \<and> snd (snd ?score) = w \<and>
              (0 < callback_parallelism \<longrightarrow>
                 (\<exists>j \<le> i. \<exists>c0. fst (callback (question (?items ! j)) c0) = Inl e') \<and>
                 ((\<forall>j < i. \<forall>c0. \<exists>v. fst (callback (question (?items ! j)) c0) = Inr v) \<longrightarrow>
                    e' = e))"
      if i: "i < length ?items"
        and always: "\<forall>c0. fst (callback (question (?items ! i)) c0) = Inl e"
    proof -
      have noInr: "R ! i \<noteq> Some (Inr v)" for v
      proof
        assume "R ! i = Some (Inr v)"
        from R(2) [OF i this] always show False by auto
      qed
      have "\<exists>i < length ?items. \<exists>e0. R ! i = Some (Inl e0)"
      proof (cases "fst ?sr")
        case (Inr ys)
        with R(4) i noInr show ?thesis by auto
      next
        case (Inl e')
        with R(4) show ?thesis by auto
      qed
      from failing [OF this] obtain k e' where k: "k < length ?items" "fst ?score = Inl e'"
        "snd (snd ?score) = w" "R ! k = Some (Inl e')" "\<forall>j < k. \<exists>v. R ! j = Some (Inr v)"
        by blast
      have ki: "k \<le> i"
      proof (rule ccontr)
        assume "\<not> k \<le> i"
        then have "i < k" by simp
        with k(5) noInr show False by blast
      qed
      from R(2) [OF k(1) k(4)] obtain s where s: "fst (callback (question (?items ! k)) s) = Inl e'"
        by blast
      have same: "e' = e"
        if "\<forall>j < i. \<forall>c0. \<exists>v. fst (callback (question (?items ! j)) c0) = Inr v"
      proof (cases "k = i")
        case True
        with s always show ?thesis by simp
      next
        case False
        with ki have "k < i" by simp
        with that obtain v where "fst (callback (question (?items ! k)) s) = Inr v" by blast
        with s show ?thesis by simp
      qed
      from k(2,3) ki s same show ?thesis by blast
    qed
    show ?thesis using partA once partB by blast
  qed
qed

theorem callback_failure_aborts_score_witness:
  "(''b'', Inl (Exception ''callback failed'')) \<in>
     set (new_calls ex_calls (fst (snd (score binary64 (ex_scorer [metric_B])
            (Of_List [ex_item ''a'', ex_item ''b'', ex_item ''c'']) ex_callback_raising 2 1
            [0, 1, 1, 1, 0, 2, 2] [] ex_calls ex_world)))) \<and>
   (1 :: nat) < length (benchmark_items (Of_List [ex_item ''a'', ex_item ''b'', ex_item ''c''])) \<and>
   score binary64 (ex_scorer [metric_B]) (Of_List [ex_item ''a'', ex_item ''b'', ex_item ''c''])
     ex_callback_raising 2 1 [0, 1, 1, 1, 0, 2, 2] [] ex_calls ex_world =
     (Inl (Exception ''callback failed''),
      \<lparr>callback_state = 3,
        callback_calls = [(''b'', Inl (Exception ''callback failed'')),
                          (''a'', Inr (''a'', [''math context''])),
                          (''c'', Inr (''c'', [''math context'']))]\<rparr>,
      ex_world) \<and>
   (\<exists>k e'. k < length (benchmark_items (Of_List [ex_item ''a'', ex_item ''b'', ex_item ''c''])) \<and>
      fst (score binary64 (ex_scorer [metric_B])
             (Of_List [ex_item ''a'', ex_item ''b'', ex_item ''c'']) ex_callback_raising 2 1
             [0, 1, 1, 1, 0, 2, 2] [] ex_calls ex_world) = Inl e' \<and>
      snd (snd (score binary64 (ex_scorer [metric_B])
             (Of_List [ex_item ''a'', ex_item ''b'', ex_item ''c'']) ex_callback_raising 2 1
             [0, 1, 1, 1, 0, 2, 2] [] ex_calls ex_world)) = ex_world)"
proof -
  let ?b = "Of_List [ex_item ''a'', ex_item ''b'', ex_item ''c'']"
  let ?score = "score binary64 (ex_scorer [metric_B]) ?b ex_callback_raising 2 1
                  [0, 1, 1, 1, 0, 2, 2] [] ex_calls ex_world"
  have v: "?score =
     (Inl (Exception ''callback failed''),
      \<lparr>callback_state = 3,
        callback_calls = [(''b'', Inl (Exception ''callback failed'')),
                          (''a'', Inr (''a'', [''math context''])),
                          (''c'', Inr (''c'', [''math context'']))]\<rparr>,
      ex_world)"
    by (simp add: run_defs ex_defs eval_nat_numeral)
  have h1: "(''b'', Inl (Exception ''callback failed'')) \<in>
              set (new_calls ex_calls (fst (snd ?score)))"
    unfolding v by (simp add: new_calls_def ex_calls_def)
  have h2: "(1 :: nat) < length (benchmark_items ?b)" by (simp add: benchmark_items_def)
  note inst = callback_failure_aborts_score [where q = "''b''"
      and e = "Exception ''callback failed''" and c = ex_calls and fl = binary64
      and self = "ex_scorer [metric_B]" and benchmark = ?b and callback = ex_callback_raising
      and callback_parallelism = 2 and scoring_parallelism = 1
      and callback_order = "[0, 1, 1, 1, 0, 2, 2]" and scoring_order = "[]" and w = ex_world
      and i = 1]
  from inst h1 have "\<exists>k e'. k < length (benchmark_items ?b) \<and> fst ?score = Inl e' \<and>
      snd (snd ?score) = ex_world"
    by blast
  with h1 h2 v show ?thesis by blast
qed

text \<open>
  C5. Under every schedule of the pool, the services that \<^verbatim>\<open>score_run\<close> constructs and the
  responses correspond one to one: a service is constructed for a response at an address
  not used before, with the scorer's \<^verbatim>\<open>model_evaluator\<close>; the calls made with that address,
  taken out of the interleaved calls of all the tasks, are that construction followed by
  the metric calls for that response, each on that service; no address serves two
  responses, no call is made on a service that existed before, and those services are
  untouched. When a Run is returned, every response has its service, and the calls on it
  are one call for each configured metric, in the order of the metrics.
\<close>

theorem one_service_per_response:
  "\<exists>owner.
     serves self responses w (snd (score_run fl self responses parallelism order w)) owner \<and>
     ((\<exists>run. fst (score_run fl self responses parallelism order w) = Inr run) \<longrightarrow>
        (\<forall>i < length responses. \<exists>a. owner ! i = Some a \<and>
           item_events self (responses ! i) a =
             Constructed a (model_evaluator self) #
             map (\<lambda>m. Scored (name m) (responses ! i) a) (metrics self)))"
proof (cases "parallelism \<le> 0")
  case True
  then have "snd (score_run fl self responses parallelism order w) = w"
    "\<not> (\<exists>run. fst (score_run fl self responses parallelism order w) = Inr run)"
    by (simp_all add: score_run_snd score_run_fst)
  then show ?thesis using serves_unchanged [of self responses w] by auto
next
  case False
  let ?em = "executor_map parallelism order (score_item_rundata self) responses w"
  have snd_eq: "snd (score_run fl self responses parallelism order w) = snd ?em"
    using False by (simp add: score_run_snd)
  from serves_executor_map [OF refl, of self responses w parallelism order]
  obtain owner where owner: "serves self responses w (snd ?em) owner"
    "(\<exists>ys. fst ?em = Inr ys) \<longrightarrow> (\<forall>i < length responses. \<exists>a. owner ! i = Some a)"
    by blast
  have success: "\<forall>i < length responses. \<exists>a. owner ! i = Some a \<and>
           item_events self (responses ! i) a =
             Constructed a (model_evaluator self) #
             map (\<lambda>m. Scored (name m) (responses ! i) a) (metrics self)"
    if "\<exists>run. fst (score_run fl self responses parallelism order w) = Inr run"
  proof (intro allI impI)
    fix i assume i: "i < length responses"
    from that obtain run where run: "fst (score_run fl self responses parallelism order w) = Inr run"
      by blast
    note eq = score_run_Inr_D(2) [OF run]
    have "fst ?em = gather (map (item_outcome self) responses)" by (rule executor_map_score)
    then have "fst ?em = Inr (run_data run)" using eq by (simp add: gather_map_Inr)
    with owner(2) i obtain a where a: "owner ! i = Some a" by blast
    have "item_outcome self (responses ! i) = Inr (run_data run ! i)"
      using arg_cong [OF eq, of "\<lambda>xs. xs ! i"] arg_cong [OF eq, of length] i by simp
    from item_events_success [OF this, of a] a
    show "\<exists>a. owner ! i = Some a \<and>
           item_events self (responses ! i) a =
             Constructed a (model_evaluator self) #
             map (\<lambda>m. Scored (name m) (responses ! i) a) (metrics self)"
      by blast
  qed
  show ?thesis using owner(1) success unfolding snd_eq by blast
qed

theorem one_service_per_response_witness:
  "(\<exists>run. fst (score_run binary64 (ex_scorer [metric_A, metric_B])
                 [ex_response ''4'', ex_response ''5''] 2 [0, 1, 0, 1, 1, 0] ex_world) = Inr run) \<and>
   trace (snd (score_run binary64 (ex_scorer [metric_A, metric_B])
                 [ex_response ''4'', ex_response ''5''] 2 [0, 1, 0, 1, 1, 0] ex_world)) =
     [Constructed 0 ''gpt-4-turbo-preview'', Constructed 1 ''gpt-4-turbo-preview'',
      Scored ''A'' (ex_response ''5'') 1, Scored ''A'' (ex_response ''4'') 0,
      Scored ''B'' (ex_response ''4'') 0, Scored ''B'' (ex_response ''5'') 1] \<and>
   events_at 1 (new_trace ex_world
      (snd (score_run binary64 (ex_scorer [metric_A, metric_B])
              [ex_response ''4'', ex_response ''5''] 2 [0, 1, 0, 1, 1, 0] ex_world))) =
     [Constructed 1 ''gpt-4-turbo-preview'',
      Scored ''A'' (ex_response ''5'') 1, Scored ''B'' (ex_response ''5'') 1] \<and>
   (\<exists>owner.
      serves (ex_scorer [metric_A, metric_B]) [ex_response ''4'', ex_response ''5''] ex_world
        (snd (score_run binary64 (ex_scorer [metric_A, metric_B])
                [ex_response ''4'', ex_response ''5''] 2 [0, 1, 0, 1, 1, 0] ex_world)) owner \<and>
      (\<exists>a. owner ! 1 = Some a \<and>
         item_events (ex_scorer [metric_A, metric_B]) (ex_response ''5'') a =
           [Constructed a ''gpt-4-turbo-preview'',
            Scored ''A'' (ex_response ''5'') a, Scored ''B'' (ex_response ''5'') a]))"
proof -
  let ?self = "ex_scorer [metric_A, metric_B]"
  let ?rs = "[ex_response ''4'', ex_response ''5'']"
  let ?sr = "score_run binary64 ?self ?rs 2 [0, 1, 0, 1, 1, 0] ex_world"
  have h: "\<exists>run. fst ?sr = Inr run"
    by (simp add: run_defs ex_defs double_defs)
  have w': "snd ?sr =
     \<lparr>heap = [\<lparr>model = ''gpt-4-turbo-preview'', cache = []\<rparr>,
               \<lparr>model = ''gpt-4-turbo-preview'', cache = []\<rparr>],
      trace = [Constructed 0 ''gpt-4-turbo-preview'', Constructed 1 ''gpt-4-turbo-preview'',
      Scored ''A'' (ex_response ''5'') 1, Scored ''A'' (ex_response ''4'') 0,
      Scored ''B'' (ex_response ''4'') 0, Scored ''B'' (ex_response ''5'') 1]\<rparr>"
    by (simp add: run_defs ex_defs double_defs)
  have t: "trace (snd ?sr) =
     [Constructed 0 ''gpt-4-turbo-preview'', Constructed 1 ''gpt-4-turbo-preview'',
      Scored ''A'' (ex_response ''5'') 1, Scored ''A'' (ex_response ''4'') 0,
      Scored ''B'' (ex_response ''4'') 0, Scored ''B'' (ex_response ''5'') 1]"
    unfolding w' by simp
  have e: "events_at 1 (new_trace ex_world (snd ?sr)) =
     [Constructed 1 ''gpt-4-turbo-preview'',
      Scored ''A'' (ex_response ''5'') 1, Scored ''B'' (ex_response ''5'') 1]"
    unfolding w' by (simp add: events_at_def new_trace_def event_address_def ex_world_def)
  from one_service_per_response [of ?self ?rs ex_world binary64 2 "[0, 1, 0, 1, 1, 0]"] h
  obtain owner where owner: "serves ?self ?rs ex_world (snd ?sr) owner"
    "\<forall>i < length ?rs. \<exists>a. owner ! i = Some a \<and>
           item_events ?self (?rs ! i) a =
             Constructed a (model_evaluator ?self) #
             map (\<lambda>m. Scored (name m) (?rs ! i) a) (metrics ?self)"
    by blast
  have one: "1 < length ?rs" by simp
  from owner(2) [rule_format, OF one]
  have "\<exists>a. owner ! 1 = Some a \<and>
         item_events ?self (ex_response ''5'') a =
           [Constructed a ''gpt-4-turbo-preview'',
            Scored ''A'' (ex_response ''5'') a, Scored ''B'' (ex_response ''5'') a]"
    by (simp add: ex_scorer_def metric_A_def metric_B_def)
  with owner(1) have "\<exists>owner. serves ?self ?rs ex_world (snd ?sr) owner \<and>
      (\<exists>a. owner ! 1 = Some a \<and>
         item_events ?self (ex_response ''5'') a =
           [Constructed a ''gpt-4-turbo-preview'',
            Scored ''A'' (ex_response ''5'') a, Scored ''B'' (ex_response ''5'') a])"
    by blast
  with h t e show ?thesis by blast
qed

text \<open>
  C6. Every key of \<^verbatim>\<open>overall_scores\<close> is a key of the \<^verbatim>\<open>scores\<close> of some RunData, and
  conversely; the count by which a total is divided is at least one, so the division never
  raises and a name without observations is absent.
\<close>

theorem overall_scores_keys_observed:
  "(\<exists>total_scores num_scores ov.
      sum_scores fl rds ([], []) = (total_scores, num_scores) \<and>
      (\<forall>m \<in> fst ` set total_scores. 1 \<le> getd 0 num_scores m) \<and>
      aggregate fl rds = Inr ov \<and>
      fst ` set ov = (\<Union>item \<in> set rds. fst ` set (scores item))) \<and>
   (fst (score_run fl self responses parallelism order w) = Inr run \<longrightarrow>
      fst ` set (overall_scores run) = (\<Union>item \<in> set (run_data run). fst ` set (scores item)))"
proof -
  have agg: "\<exists>t n ov. sum_scores fl rds ([], []) = (t, n) \<and>
      (\<forall>m \<in> fst ` set t. 1 \<le> getd 0 n m) \<and> aggregate fl rds = Inr ov \<and>
      fst ` set ov = (\<Union>item \<in> set rds. fst ` set (scores item))" for rds
  proof -
    from aggregate_total [of fl rds] obtain t n where tn:
      "sum_scores fl rds ([], []) = (t, n)" "aggregate fl rds = Inr (quotients fl n t [])"
      "\<And>m. getd 0 n m = int (length (all_values m rds))"
      "fst ` set t = (\<Union>item \<in> set rds. fst ` set (scores item))"
      by blast
    have "1 \<le> getd 0 n m" if "m \<in> fst ` set t" for m
    proof -
      have "all_values m rds \<noteq> []" using that tn(4) all_values_empty_iff [of m rds] by simp
      then have "1 \<le> int (length (all_values m rds))"
        by (cases "all_values m rds") simp_all
      then show ?thesis using tn(3) [of m] by simp
    qed
    moreover have "fst ` set (quotients fl n t []) = (\<Union>item \<in> set rds. fst ` set (scores item))"
      using tn(4) by (simp add: keys_quotients)
    ultimately show ?thesis using tn(1,2) by blast
  qed
  show ?thesis
  proof (intro conjI impI)
    show "\<exists>total_scores num_scores ov.
      sum_scores fl rds ([], []) = (total_scores, num_scores) \<and>
      (\<forall>m \<in> fst ` set total_scores. 1 \<le> getd 0 num_scores m) \<and>
      aggregate fl rds = Inr ov \<and>
      fst ` set ov = (\<Union>item \<in> set rds. fst ` set (scores item))"
      by (rule agg)
  next
    assume run: "fst (score_run fl self responses parallelism order w) = Inr run"
    from agg [of "run_data run"] score_run_Inr_D(3) [OF run]
    show "fst ` set (overall_scores run) =
          (\<Union>item \<in> set (run_data run). fst ` set (scores item))"
      by auto
  qed
qed

theorem overall_scores_keys_observed_witness:
  "fst (score_run binary64 (ex_scorer [metric_A, metric_B])
         [ex_response ''4'', ex_response ''5''] 2 [0, 1, 0, 1, 1, 0] ex_world) =
     Inr \<lparr>overall_scores = [(''A'', Finite (3 / 4)), (''B'', Finite 1)],
          run_data = [ex_rundata [(''A'', Finite (1 / 2)), (''B'', Finite 1)] ''4'',
                      ex_rundata [(''A'', Finite 1), (''B'', Finite 1)] ''5''],
          run_id = None\<rparr> \<and>
   sum_scores binary64
     [ex_rundata [(''B'', Finite 1)] ''3'',
      ex_rundata [(''A'', Finite (1 / 2)), (''B'', Finite 1)] ''4'']
     ([], []) = ([(''B'', Finite 2), (''A'', Finite (1 / 2))], [(''B'', 2), (''A'', 1)]) \<and>
   1 \<le> getd 0 [(''B'', 2 :: int), (''A'', 1)] ''B'' \<and>
   1 \<le> getd 0 [(''B'', 2 :: int), (''A'', 1)] ''A'' \<and>
   fst ` set [(''A'', Finite (3 / 4)), (''B'', Finite 1)] = {''A'', ''B''}"
proof -
  let ?run = "\<lparr>overall_scores = [(''A'', Finite (3 / 4)), (''B'', Finite 1)],
          run_data = [ex_rundata [(''A'', Finite (1 / 2)), (''B'', Finite 1)] ''4'',
                      ex_rundata [(''A'', Finite 1), (''B'', Finite 1)] ''5''],
          run_id = None\<rparr>"
  let ?rds = "[ex_rundata [(''B'', Finite 1)] ''3'',
               ex_rundata [(''A'', Finite (1 / 2)), (''B'', Finite 1)] ''4'']"
  have h1: "fst (score_run binary64 (ex_scorer [metric_A, metric_B])
                  [ex_response ''4'', ex_response ''5''] 2 [0, 1, 0, 1, 1, 0] ex_world) = Inr ?run"
    by (simp add: run_defs ex_defs double_defs)
  have s: "sum_scores binary64 ?rds ([], []) =
           ([(''B'', Finite 2), (''A'', Finite (1 / 2))], [(''B'', 2), (''A'', 1)])"
    by (simp add: getd_def ex_defs double_defs)
  note inst = overall_scores_keys_observed [of binary64 ?rds "ex_scorer [metric_A, metric_B]"
        "[ex_response ''4'', ex_response ''5'']" 2 "[0, 1, 0, 1, 1, 0]" ex_world ?run]
  from inst s have c: "1 \<le> getd 0 [(''B'', 2 :: int), (''A'', 1)] ''B''"
    "1 \<le> getd 0 [(''B'', 2 :: int), (''A'', 1)] ''A''"
    by simp_all
  from inst h1 have "fst ` set (overall_scores ?run) =
      (\<Union>item \<in> set (run_data ?run). fst ` set (scores item))"
    by blast
  then have k: "fst ` set [(''A'', Finite (3 / 4)), (''B'', Finite 1)] = {''A'', ''B''}"
    by (simp add: ex_rundata_def insert_commute)
  show ?thesis using h1 s c k by blast
qed

text \<open>
  C7. With a pool that can be built (parallelism at least one, the default), \<^verbatim>\<open>score_run\<close>
  on an empty list of responses and \<^verbatim>\<open>score\<close> on an empty benchmark return the Run with
  empty \<^verbatim>\<open>overall_scores\<close> and empty \<^verbatim>\<open>run_data\<close>, and change nothing.
\<close>

theorem empty_input_empty_run:
  "(0 < parallelism \<longrightarrow> score_run fl self [] parallelism order w = (Inr empty_run, w)) \<and>
   (0 < callback_parallelism \<and> 0 < parallelism \<and> benchmark_items benchmark = [] \<longrightarrow>
      score fl self benchmark callback callback_parallelism parallelism callback_order order c w =
        (Inr empty_run, c, w))"
  by (simp add: score_def score_responses_def score_run_def ThreadPoolExecutor_def
      executor_map_Nil aggregate_def empty_run_def)

theorem empty_input_empty_run_witness:
  "(0 :: int) < 1 \<and>
   score_run binary64 (ex_scorer [metric_A, metric_B]) [] 1 [0] ex_world =
     (Inr \<lparr>overall_scores = [], run_data = [], run_id = None\<rparr>, ex_world) \<and>
   benchmark_items (Of_List []) = [] \<and>
   score binary64 (ex_scorer [metric_A, metric_B]) (Of_List []) ex_callback 1 1 [0] [0]
     ex_calls ex_world =
     (Inr \<lparr>overall_scores = [], run_data = [], run_id = None\<rparr>, ex_calls, ex_world)"
  using empty_input_empty_run [where parallelism = 1 and fl = binary64
      and self = "ex_scorer [metric_A, metric_B]" and order = "[0]" and w = ex_world
      and callback_parallelism = 1 and benchmark = "Of_List []" and callback = ex_callback
      and callback_order = "[0]" and c = ex_calls]
  by (simp add: empty_run_def benchmark_items_def)

text \<open>
  C8, as the specification states it, does not hold of the program: the aggregation is a
  float sum, which depends on the order of the terms. The same four RunData in two orders
  aggregate to \<^verbatim>\<open>0.75\<close> and to \<^verbatim>\<open>1.0\<close>.
\<close>

theorem aggregation_depends_on_order:
  "mset [ex_rundata [(''W'', Finite 10000000000000000)] ''big'',
         ex_rundata [(''W'', Finite 1)] ''one'',
         ex_rundata [(''W'', Finite (- 10000000000000000))] ''neg'',
         ex_rundata [(''W'', Finite 3)] ''three''] =
   mset [ex_rundata [(''W'', Finite 10000000000000000)] ''big'',
         ex_rundata [(''W'', Finite (- 10000000000000000))] ''neg'',
         ex_rundata [(''W'', Finite 1)] ''one'',
         ex_rundata [(''W'', Finite 3)] ''three''] \<and>
   aggregate binary64
     [ex_rundata [(''W'', Finite 10000000000000000)] ''big'',
      ex_rundata [(''W'', Finite 1)] ''one'',
      ex_rundata [(''W'', Finite (- 10000000000000000))] ''neg'',
      ex_rundata [(''W'', Finite 3)] ''three''] = Inr [(''W'', Finite (3 / 4))] \<and>
   aggregate binary64
     [ex_rundata [(''W'', Finite 10000000000000000)] ''big'',
      ex_rundata [(''W'', Finite (- 10000000000000000))] ''neg'',
      ex_rundata [(''W'', Finite 1)] ''one'',
      ex_rundata [(''W'', Finite 3)] ''three''] = Inr [(''W'', Finite 1)] \<and>
   Finite (3 / 4) \<noteq> Finite 1"
proof (intro conjI)
  show "mset [ex_rundata [(''W'', Finite 10000000000000000)] ''big'',
         ex_rundata [(''W'', Finite 1)] ''one'',
         ex_rundata [(''W'', Finite (- 10000000000000000))] ''neg'',
         ex_rundata [(''W'', Finite 3)] ''three''] =
   mset [ex_rundata [(''W'', Finite 10000000000000000)] ''big'',
         ex_rundata [(''W'', Finite (- 10000000000000000))] ''neg'',
         ex_rundata [(''W'', Finite 1)] ''one'',
         ex_rundata [(''W'', Finite 3)] ''three'']"
    by simp
  show "aggregate binary64
     [ex_rundata [(''W'', Finite 10000000000000000)] ''big'',
      ex_rundata [(''W'', Finite 1)] ''one'',
      ex_rundata [(''W'', Finite (- 10000000000000000))] ''neg'',
      ex_rundata [(''W'', Finite 3)] ''three''] = Inr [(''W'', Finite (3 / 4))]"
    by (simp add: aggregate_def getd_def ex_rundata_def double_defs)
  show "aggregate binary64
     [ex_rundata [(''W'', Finite 10000000000000000)] ''big'',
      ex_rundata [(''W'', Finite (- 10000000000000000))] ''neg'',
      ex_rundata [(''W'', Finite 1)] ''one'',
      ex_rundata [(''W'', Finite 3)] ''three''] = Inr [(''W'', Finite 1)]"
    by (simp add: aggregate_def getd_def ex_rundata_def double_defs)
  show "Finite (3 / 4) \<noteq> Finite 1" by simp
qed

text \<open>
  C8, amended. \<^verbatim>\<open>score_run\<close> agrees with the sequential reference. A Run returned under any
  parallelism and any schedule of the pool has the \<^verbatim>\<open>run_data\<close> of the sequential loop and
  the \<^verbatim>\<open>overall_scores\<close> that the reference gives when it adds the values in the order of
  \<^verbatim>\<open>run_data\<close> with the same float arithmetic, and the single-worker run returns the same
  Run. With a pool that can be built, the outcome, Run or exception, is that of the
  single-worker run. The agreement comes from the order of \<^verbatim>\<open>run_data\<close>, which is the order
  of the responses, not from the reduction being commutative: lists of RunData that are
  permutations of each other aggregate to mappings with the same keys, whose values may
  differ.
\<close>

theorem parallel_agrees_with_sequential:
  "(fst (score_run fl self responses parallelism order w) = Inr run \<longrightarrow>
      fst (score_sequential self responses w') = Inr (run_data run) \<and>
      (\<forall>m. map_of (overall_scores run) m = reference_overall_scores fl (run_data run) m) \<and>
      fst (score_run fl self responses 1 order' w') = Inr run) \<and>
   (0 < parallelism \<longrightarrow>
      fst (score_run fl self responses parallelism order w) =
        fst (score_run fl self responses 1 order' w') \<and>
      (\<forall>e. fst (score_run fl self responses parallelism order w) = Inl e \<longleftrightarrow>
            fst (score_sequential self responses w') = Inl e)) \<and>
   (mset rds = mset rds' \<longrightarrow>
      (\<exists>ov ov'. aggregate fl rds = Inr ov \<and> aggregate fl rds' = Inr ov' \<and>
         fst ` set ov = fst ` set ov'))"
proof (intro conjI impI)
  assume run: "fst (score_run fl self responses parallelism order w) = Inr run"
  note eq = score_run_Inr_D(2) [OF run]
  note pos = score_run_Inr_D(1) [OF run]
  show "fst (score_sequential self responses w') = Inr (run_data run)"
    by (simp add: score_sequential_fst eq gather_map_Inr)
  have "dict_scores (run_data run)" using run by (rule score_run_dict_scores)
  from aggregate_reference [OF this, of fl] score_run_Inr_D(3) [OF run]
  show "\<forall>m. map_of (overall_scores run) m = reference_overall_scores fl (run_data run) m"
    by auto
  show "fst (score_run fl self responses 1 order' w') = Inr run"
    using run pos by (simp add: score_run_fst)
next
  assume pos: "0 < parallelism"
  show "fst (score_run fl self responses parallelism order w) =
        fst (score_run fl self responses 1 order' w')"
    using pos by (simp add: score_run_fst)
  show "\<forall>e. fst (score_run fl self responses parallelism order w) = Inl e \<longleftrightarrow>
            fst (score_sequential self responses w') = Inl e"
  proof (cases "gather (map (item_outcome self) responses)")
    case (Inl e')
    then show ?thesis using pos by (simp add: score_run_fst score_sequential_fst)
  next
    case (Inr rds)
    from run_of_Inr [of fl rds] obtain r where "run_of fl rds = Inr r" by blast
    with Inr show ?thesis using pos by (simp add: score_run_fst score_sequential_fst)
  qed
next
  assume "mset rds = mset rds'"
  then have s: "set rds = set rds'" by (rule mset_eq_setD)
  from aggregate_keys [of fl rds] aggregate_keys [of fl rds'] s
  show "\<exists>ov ov'. aggregate fl rds = Inr ov \<and> aggregate fl rds' = Inr ov' \<and>
         fst ` set ov = fst ` set ov'"
    by auto
qed

theorem parallel_agrees_with_sequential_witness:
  "fst (score_run binary64 (ex_scorer [metric_A, metric_B])
         [ex_response ''4'', ex_response ''5''] 2 [0, 1, 0, 1, 1, 0] ex_world) =
     Inr \<lparr>overall_scores = [(''A'', Finite (3 / 4)), (''B'', Finite 1)],
          run_data = [ex_rundata [(''A'', Finite (1 / 2)), (''B'', Finite 1)] ''4'',
                      ex_rundata [(''A'', Finite 1), (''B'', Finite 1)] ''5''],
          run_id = None\<rparr> \<and>
   fst (score_sequential (ex_scorer [metric_A, metric_B])
          [ex_response ''4'', ex_response ''5''] ex_world) =
     Inr [ex_rundata [(''A'', Finite (1 / 2)), (''B'', Finite 1)] ''4'',
          ex_rundata [(''A'', Finite 1), (''B'', Finite 1)] ''5''] \<and>
   fst (score_run binary64 (ex_scorer [metric_A, metric_B])
         [ex_response ''4'', ex_response ''5''] 1 [0, 0, 0, 0, 1] ex_world) =
     Inr \<lparr>overall_scores = [(''A'', Finite (3 / 4)), (''B'', Finite 1)],
          run_data = [ex_rundata [(''A'', Finite (1 / 2)), (''B'', Finite 1)] ''4'',
                      ex_rundata [(''A'', Finite 1), (''B'', Finite 1)] ''5''],
          run_id = None\<rparr> \<and>
   mset [ex_rundata [(''A'', Finite 1)] ''5'', ex_rundata [(''B'', Finite 1)] ''3''] =
   mset [ex_rundata [(''B'', Finite 1)] ''3'', ex_rundata [(''A'', Finite 1)] ''5''] \<and>
   (\<exists>ov ov'. aggregate binary64
                [ex_rundata [(''A'', Finite 1)] ''5'', ex_rundata [(''B'', Finite 1)] ''3''] =
                Inr ov \<and>
              aggregate binary64
                [ex_rundata [(''B'', Finite 1)] ''3'', ex_rundata [(''A'', Finite 1)] ''5''] =
                Inr ov' \<and>
              fst ` set ov = fst ` set ov')"
proof -
  let ?self = "ex_scorer [metric_A, metric_B]"
  let ?rs = "[ex_response ''4'', ex_response ''5'']"
  let ?run = "\<lparr>overall_scores = [(''A'', Finite (3 / 4)), (''B'', Finite 1)],
          run_data = [ex_rundata [(''A'', Finite (1 / 2)), (''B'', Finite 1)] ''4'',
                      ex_rundata [(''A'', Finite 1), (''B'', Finite 1)] ''5''],
          run_id = None\<rparr>"
  let ?rds = "[ex_rundata [(''A'', Finite 1)] ''5'', ex_rundata [(''B'', Finite 1)] ''3'']"
  let ?rds' = "[ex_rundata [(''B'', Finite 1)] ''3'', ex_rundata [(''A'', Finite 1)] ''5'']"
  have h1: "fst (score_run binary64 ?self ?rs 2 [0, 1, 0, 1, 1, 0] ex_world) = Inr ?run"
    by (simp add: run_defs ex_defs double_defs)
  have h2: "mset ?rds = mset ?rds'" by simp
  note inst = parallel_agrees_with_sequential [where fl = binary64 and self = ?self
      and responses = ?rs and parallelism = 2 and order = "[0, 1, 0, 1, 1, 0]" and w = ex_world
      and run = ?run and w' = ex_world and order' = "[0, 0, 0, 0, 1]" and rds = ?rds
      and rds' = ?rds']
  from inst h1 have a: "fst (score_sequential ?self ?rs ex_world) = Inr (run_data ?run)"
    and b: "fst (score_run binary64 ?self ?rs 1 [0, 0, 0, 0, 1] ex_world) = Inr ?run"
    by blast+
  from a have a': "fst (score_sequential ?self ?rs ex_world) =
     Inr [ex_rundata [(''A'', Finite (1 / 2)), (''B'', Finite 1)] ''4'',
          ex_rundata [(''A'', Finite 1), (''B'', Finite 1)] ''5'']"
    by simp
  from inst h2 have c: "\<exists>ov ov'. aggregate binary64 ?rds = Inr ov \<and>
      aggregate binary64 ?rds' = Inr ov' \<and> fst ` set ov = fst ` set ov'"
    by blast
  show ?thesis using h1 a' b h2 c by blast
qed

text \<open>
  C9. The \<^verbatim>\<open>run_data\<close> of a Run that \<^verbatim>\<open>score_run\<close> returns has one RunData per response, in
  the order of the responses: entry \<open>i\<close> is what scoring response \<open>i\<close> on its own returns,
  whatever the parallelism and the schedule of the pool.
\<close>

theorem run_data_in_input_order:
  assumes "fst (score_run fl self responses parallelism order w) = Inr run"
  shows "length (run_data run) = length responses \<and>
         (\<forall>i < length responses.
            fst (run_prog (score_item_rundata self (responses ! i)) w') = Inr (run_data run ! i))"
proof -
  note eq = score_run_Inr_D(2) [OF assms]
  have len: "length (run_data run) = length responses"
    using arg_cong [OF eq, of length] by simp
  have "fst (run_prog (score_item_rundata self (responses ! i)) w') = Inr (run_data run ! i)"
    if "i < length responses" for i
    using arg_cong [OF eq, of "\<lambda>xs. xs ! i"] that len by (simp add: run_score_item_rundata)
  with len show ?thesis by blast
qed

theorem run_data_in_input_order_witness:
  "fst (score_run binary64 (ex_scorer [metric_A, metric_B])
         [ex_response ''4'', ex_response ''5''] 2 [0, 1, 0, 1, 1, 0] ex_world) =
     Inr \<lparr>overall_scores = [(''A'', Finite (3 / 4)), (''B'', Finite 1)],
          run_data = [ex_rundata [(''A'', Finite (1 / 2)), (''B'', Finite 1)] ''4'',
                      ex_rundata [(''A'', Finite 1), (''B'', Finite 1)] ''5''],
          run_id = None\<rparr> \<and>
   fst (run_prog (score_item_rundata (ex_scorer [metric_A, metric_B]) (ex_response ''5''))
         ex_world) =
     Inr (ex_rundata [(''A'', Finite 1), (''B'', Finite 1)] ''5'')"
proof -
  let ?run = "\<lparr>overall_scores = [(''A'', Finite (3 / 4)), (''B'', Finite 1)],
          run_data = [ex_rundata [(''A'', Finite (1 / 2)), (''B'', Finite 1)] ''4'',
                      ex_rundata [(''A'', Finite 1), (''B'', Finite 1)] ''5''],
          run_id = None\<rparr>"
  let ?rs = "[ex_response ''4'', ex_response ''5'']"
  have h1: "fst (score_run binary64 (ex_scorer [metric_A, metric_B]) ?rs 2 [0, 1, 0, 1, 1, 0]
                  ex_world) = Inr ?run"
    by (simp add: run_defs ex_defs double_defs)
  from run_data_in_input_order [OF h1, of ex_world]
  have all: "\<forall>i < length ?rs.
      fst (run_prog (score_item_rundata (ex_scorer [metric_A, metric_B]) (?rs ! i)) ex_world) =
        Inr (run_data ?run ! i)"
    by blast
  have one: "1 < length ?rs" by simp
  from all [rule_format, OF one]
  have "fst (run_prog (score_item_rundata (ex_scorer [metric_A, metric_B]) (ex_response ''5''))
         ex_world) = Inr (ex_rundata [(''A'', Finite 1), (''B'', Finite 1)] ''5'')"
    by simp
  with h1 show ?thesis by blast
qed

text \<open>
  C10. Metrics may share a name; nothing checks for it. In the RunData of a response the
  name then maps to the score of the last call made under that name, that is, of the last
  metric with that name in the scorer's list, and it is one key with one value. So the
  aggregation sees one value for the name in each RunData, the score of that last call:
  \<^verbatim>\<open>num_scores\<close> counts the responses, \<^verbatim>\<open>total_scores\<close> is the float sum of these values and
  \<^verbatim>\<open>overall_scores\<close> their float mean. Whenever all metric calls return, \<^verbatim>\<open>score_run\<close> returns
  a Run, with or without repeated names.
\<close>

theorem duplicate_names_last_wins:
  "(fst (run_prog (score_item_rundata self response) w) = Inr item \<longrightarrow>
      map_of (scores item) n = last_score n (item_calls self response) \<and>
      map fst (item_calls self response) = map name (metrics self) \<and>
      distinct (map fst (scores item))) \<and>
   (fst (score_run fl self responses parallelism order w) = Inr run \<and>
      n \<in> name ` set (metrics self) \<longrightarrow>
      length (observed n (run_data run)) = length responses \<and>
      map Some (observed n (run_data run)) =
        map (\<lambda>r. last_score n (item_calls self r)) responses \<and>
      (\<exists>total_scores num_scores.
         sum_scores fl (run_data run) ([], []) = (total_scores, num_scores) \<and>
         getd 0 num_scores n = int (length responses) \<and>
         getd (float_zero fl) total_scores n = float_sum fl (observed n (run_data run))) \<and>
      map_of (overall_scores run) n =
        (if responses = [] then None else Some (float_mean fl (observed n (run_data run))))) \<and>
   (0 < parallelism \<and>
      list_all (\<lambda>r. list_all (\<lambda>c. \<exists>v. snd c = Inr v) (item_calls self r)) responses \<longrightarrow>
      (\<exists>run. fst (score_run fl self responses parallelism order w) = Inr run))"
proof (intro conjI impI)
  assume "fst (run_prog (score_item_rundata self response) w) = Inr item"
  then have out: "item_outcome self response = Inr item"
    by (simp add: run_score_item_rundata)
  show "map_of (scores item) n = last_score n (item_calls self response)"
    using out by (rule item_outcome_Inr(5))
  show "map fst (item_calls self response) = map name (metrics self)"
    using out by (rule item_outcome_Inr(4))
  show "distinct (map fst (scores item))"
    using out by (rule item_outcome_Inr(2))
next
  assume a: "fst (score_run fl self responses parallelism order w) = Inr run \<and>
      n \<in> name ` set (metrics self)"
  then have run: "fst (score_run fl self responses parallelism order w) = Inr run"
    and n: "n \<in> name ` set (metrics self)" by simp_all
  note eq = score_run_Inr_D(2) [OF run]
  have len: "length (run_data run) = length responses"
    using arg_cong [OF eq, of length] by simp
  have "n \<in> fst ` set (scores item)" if "item \<in> set (run_data run)" for item
  proof -
    from that have "Inr item \<in> set (map (item_outcome self) responses)" unfolding eq by simp
    then obtain r where "item_outcome self r = Inr item" by auto
    from item_outcome_Inr(1) [OF this] n show ?thesis by simp
  qed
  then have "length (observed n (run_data run)) = length (run_data run)"
    by (intro observed_length) blast
  with len show ol: "length (observed n (run_data run)) = length responses" by simp
  show "map Some (observed n (run_data run)) =
        map (\<lambda>r. last_score n (item_calls self r)) responses"
    using eq n by (rule observed_last_score)
  have dict: "dict_scores (run_data run)" using run by (rule score_run_dict_scores)
  note av = all_values_observed [OF dict, of n]
  from aggregate_total [of fl "run_data run"] obtain t c where tc:
    "sum_scores fl (run_data run) ([], []) = (t, c)"
    "\<And>m. getd (float_zero fl) t m = float_sum fl (all_values m (run_data run))"
    "\<And>m. getd 0 c m = int (length (all_values m (run_data run)))"
    by blast
  show "\<exists>total_scores num_scores.
         sum_scores fl (run_data run) ([], []) = (total_scores, num_scores) \<and>
         getd 0 num_scores n = int (length responses) \<and>
         getd (float_zero fl) total_scores n = float_sum fl (observed n (run_data run))"
    using tc(1) tc(2) [of n] tc(3) [of n] av ol by simp
  from aggregate_reference [OF dict, of fl] score_run_Inr_D(3) [OF run]
  have "map_of (overall_scores run) n = reference_overall_scores fl (run_data run) n" by auto
  moreover have "observed n (run_data run) = [] \<longleftrightarrow> responses = []" using ol by auto
  ultimately show "map_of (overall_scores run) n =
        (if responses = [] then None else Some (float_mean fl (observed n (run_data run))))"
    by (simp add: reference_overall_scores_def)
next
  assume a: "0 < parallelism \<and>
      list_all (\<lambda>r. list_all (\<lambda>c. \<exists>v. snd c = Inr v) (item_calls self r)) responses"
  then have "\<forall>x \<in> set (map (item_outcome self) responses). \<exists>y. x = Inr y"
    using item_outcome_total [of self] by (auto simp: list_all_iff)
  from gather_total [OF this] obtain rds where
    "gather (map (item_outcome self) responses) = Inr rds" by blast
  moreover from run_of_Inr [of fl rds] obtain run where "run_of fl rds = Inr run" by blast
  ultimately show "\<exists>run. fst (score_run fl self responses parallelism order w) = Inr run"
    using a by (simp add: score_run_fst)
qed

theorem duplicate_names_last_wins_witness:
  "fst (run_prog (score_item_rundata (ex_scorer [metric_A, metric_B, metric_A_again])
                    (ex_response ''4'')) ex_world) =
     Inr (ex_rundata [(''A'', Finite 0), (''B'', Finite 1)] ''4'') \<and>
   item_calls (ex_scorer [metric_A, metric_B, metric_A_again]) (ex_response ''4'') =
     [(''A'', Inr (Finite (1 / 2))), (''B'', Inr (Finite 1)), (''A'', Inr (Finite 0))] \<and>
   map_of (scores (ex_rundata [(''A'', Finite 0), (''B'', Finite 1)] ''4'')) ''A'' =
     Some (Finite 0) \<and>
   fst (score_run binary64 (ex_scorer [metric_A, metric_B, metric_A_again])
          [ex_response ''4'', ex_response ''5''] 2 [0, 1, 0, 1, 1, 0] ex_world) =
     Inr \<lparr>overall_scores = [(''A'', Finite 0), (''B'', Finite 1)],
          run_data = [ex_rundata [(''A'', Finite 0), (''B'', Finite 1)] ''4'',
                      ex_rundata [(''A'', Finite 0), (''B'', Finite 1)] ''5''],
          run_id = None\<rparr> \<and>
   ''A'' \<in> name ` set (metrics (ex_scorer [metric_A, metric_B, metric_A_again])) \<and>
   length (observed ''A'' [ex_rundata [(''A'', Finite 0), (''B'', Finite 1)] ''4'',
                           ex_rundata [(''A'', Finite 0), (''B'', Finite 1)] ''5'']) = 2 \<and>
   (\<exists>total_scores num_scores.
      sum_scores binary64 [ex_rundata [(''A'', Finite 0), (''B'', Finite 1)] ''4'',
                           ex_rundata [(''A'', Finite 0), (''B'', Finite 1)] ''5''] ([], []) =
        (total_scores, num_scores) \<and>
      getd 0 num_scores ''A'' = 2)"
proof -
  let ?self = "ex_scorer [metric_A, metric_B, metric_A_again]"
  let ?rs = "[ex_response ''4'', ex_response ''5'']"
  let ?item = "ex_rundata [(''A'', Finite 0), (''B'', Finite 1)] ''4''"
  let ?run = "\<lparr>overall_scores = [(''A'', Finite 0), (''B'', Finite 1)],
          run_data = [ex_rundata [(''A'', Finite 0), (''B'', Finite 1)] ''4'',
                      ex_rundata [(''A'', Finite 0), (''B'', Finite 1)] ''5''],
          run_id = None\<rparr>"
  have h1: "fst (run_prog (score_item_rundata ?self (ex_response ''4'')) ex_world) = Inr ?item"
    by (simp add: run_defs ex_defs)
  have calls: "item_calls ?self (ex_response ''4'') =
     [(''A'', Inr (Finite (1 / 2))), (''B'', Inr (Finite 1)), (''A'', Inr (Finite 0))]"
    by (simp add: item_calls_def fresh_service_def ex_defs)
  have h2: "fst (score_run binary64 ?self ?rs 2 [0, 1, 0, 1, 1, 0] ex_world) = Inr ?run"
    by (simp add: run_defs ex_defs double_defs)
  have h3: "''A'' \<in> name ` set (metrics ?self)" by (simp add: ex_defs)
  note inst = duplicate_names_last_wins [where self = ?self and response = "ex_response ''4''"
      and w = ex_world and item = ?item and n = "''A''" and responses = ?rs
      and parallelism = 2 and order = "[0, 1, 0, 1, 1, 0]" and run = ?run and fl = binary64]
  from inst h1 have "map_of (scores ?item) ''A'' = last_score ''A'' (item_calls ?self (ex_response ''4''))"
    by blast
  then have a: "map_of (scores ?item) ''A'' = Some (Finite 0)"
    by (simp add: calls last_score_def)
  from inst h2 h3 have "length (observed ''A'' (run_data ?run)) = length ?rs"
    and "\<exists>total_scores num_scores.
         sum_scores binary64 (run_data ?run) ([], []) = (total_scores, num_scores) \<and>
         getd 0 num_scores ''A'' = int (length ?rs)"
    by blast+
  then have b: "length (observed ''A'' [ex_rundata [(''A'', Finite 0), (''B'', Finite 1)] ''4'',
                           ex_rundata [(''A'', Finite 0), (''B'', Finite 1)] ''5'']) = 2"
    and c: "\<exists>total_scores num_scores.
      sum_scores binary64 [ex_rundata [(''A'', Finite 0), (''B'', Finite 1)] ''4'',
                           ex_rundata [(''A'', Finite 0), (''B'', Finite 1)] ''5''] ([], []) =
        (total_scores, num_scores) \<and>
      getd 0 num_scores ''A'' = 2"
    by simp_all
  show ?thesis using h1 calls a h2 h3 b c by blast
qed

end
